theory Spec2Isabelle
  imports Complex_Main "HOL-Library.Sublist" "HOL-Library.Multiset"
begin

text \<open>
  The job controller that turns newsletters into podcasts
  (\<open>src/synthesis/src/controllers/userController.ts\<close>): the composition of the podcast input,
  the schedule calculator, the bounded-concurrency executor, the extraction step, the
  pipeline of one subscription and the loops of the job. The definitions come first, the
  properties after them.
\<close>

section \<open>Strings of the host language\<close>

text \<open>
  A string is a list of code units; a \<^typ>\<open>char\<close> stands for a code unit below 256.
  \<open>String.prototype.trim\<close> removes white space and line terminators from both ends;
  of those, the code units below 256 are TAB, LF, VT, FF, CR, SPACE and NBSP.
\<close>

definition isWhiteSpace :: "char \<Rightarrow> bool" where
  "isWhiteSpace c = (c \<in> {CHR 0x09, CHR 0x0A, CHR 0x0B, CHR 0x0C, CHR 0x0D, CHR 0x20, CHR 0xA0})"

definition trimStart :: "string \<Rightarrow> string" where
  "trimStart s = dropWhile isWhiteSpace s"

definition trimEnd :: "string \<Rightarrow> string" where
  "trimEnd s = rev (dropWhile isWhiteSpace (rev s))"

definition trim :: "string \<Rightarrow> string" where
  "trim s = trimEnd (trimStart s)"

text \<open>\<open>Array.prototype.join\<close> on an array of strings.\<close>

fun join :: "string \<Rightarrow> string list \<Rightarrow> string" where
  "join sep [] = []"
| "join sep [x] = x"
| "join sep (x # y # ys) = x @ sep @ join sep (y # ys)"

text \<open>
  Truthiness of an optional string: \<open>undefined\<close> and the empty string are falsy.
  \<open>a || b\<close> is \<open>a\<close> when \<open>a\<close> is truthy and \<open>b\<close> otherwise; \<open>a ?? b\<close> is \<open>a\<close>
  unless \<open>a\<close> is \<open>undefined\<close>.
\<close>

fun truthy :: "string option \<Rightarrow> bool" where
  "truthy None = False"
| "truthy (Some s) = (s \<noteq> [])"

definition orElse :: "string option \<Rightarrow> string option \<Rightarrow> string option" where
  "orElse a b = (if truthy a then a else b)"

fun nullish :: "string option \<Rightarrow> string \<Rightarrow> string" where
  "nullish None d = d"
| "nullish (Some s) d = s"

abbreviation NL :: string where
  "NL \<equiv> [CHR 0x0A]"

section \<open>Extracted content and the podcast input\<close>

datatype FetchMethod = httpx | browserless | playwright

record ExtractedArticle =
  art_text :: string
  link :: "string option"
  link_text :: "string option"
  title :: "string option"
  fetched_content :: "string option"
  fetched_title :: "string option"
  fetched_url :: "string option"
  fetch_error :: "string option"
  fetch_method :: "FetchMethod option"

record ExtractedEmail =
  subject :: "string option"
  from_addr :: "string option"
  date :: "string option"
  articles :: "ExtractedArticle list"

text \<open>
  The callback of the inner \<open>map\<close> of \<open>buildPodcastInput\<close>: the text block of one
  article, or \<open>null\<close> (\<open>None\<close>) when the article has no content. The two logging
  statements have no effect on the value.
\<close>

definition renderArticle :: "ExtractedArticle \<Rightarrow> string option" where
  "renderArticle article =
     (let content = orElse (fetched_content article) (Some (art_text article));
          ttl = orElse (fetched_title article) (title article)
      in if \<not> truthy content then None
         else (let txt = nullish content [] in
               if truthy ttl then Some (''### '' @ nullish ttl [] @ NL @ NL @ txt)
               else Some txt))"

definition articleSeparator :: string where
  "articleSeparator = NL @ NL @ ''---'' @ NL @ NL"

definition emailSeparator :: string where
  "emailSeparator = NL @ NL @ ''==='' @ NL @ NL"

definition emailHeader :: "ExtractedEmail \<Rightarrow> string" where
  "emailHeader email =
     trim (''From: '' @ nullish (from_addr email) [] @ NL @
           ''Subject: '' @ nullish (subject email) [] @ NL @
           ''Date: '' @ nullish (date email) [])"

definition articlesText :: "ExtractedEmail \<Rightarrow> string" where
  "articlesText email =
     join articleSeparator
       (map (\<lambda>t. nullish t []) (filter truthy (map renderArticle (articles email))))"

definition renderEmail :: "ExtractedEmail \<Rightarrow> string" where
  "renderEmail email = trim (emailHeader email @ NL @ NL @ articlesText email)"

definition buildPodcastInput :: "ExtractedEmail list \<Rightarrow> string" where
  "buildPodcastInput extractedEmails =
     join emailSeparator (filter (\<lambda>s. s \<noteq> []) (map renderEmail extractedEmails))"

section \<open>Dates of the host language and the schedule calculator\<close>

text \<open>
  A \<open>Date\<close> object holds a time value: an integral number of milliseconds since the epoch,
  at most \<open>8.64e15\<close> in absolute value, or \<open>NaN\<close> (an invalid date). The functions below
  are the abstract operations of the language standard that \<open>getUTCDate\<close>,
  \<open>getUTCMonth\<close>, \<open>setUTCDate\<close> and \<open>setUTCMonth\<close> are defined by, on integers.
\<close>

datatype Date = TimeValue int | InvalidDate

definition msPerDay :: int where
  "msPerDay = 86400000"

definition maxTime :: int where
  "maxTime = 8640000000000000"

definition TimeClip :: "int \<Rightarrow> Date" where
  "TimeClip v = (if \<bar>v\<bar> > maxTime then InvalidDate else TimeValue v)"

definition Day :: "int \<Rightarrow> int" where
  "Day t = t div msPerDay"

definition TimeWithinDay :: "int \<Rightarrow> int" where
  "TimeWithinDay t = t mod msPerDay"

definition DaysInYear :: "int \<Rightarrow> int" where
  "DaysInYear y =
     (if y mod 4 \<noteq> 0 then 365 else if y mod 100 \<noteq> 0 then 366
      else if y mod 400 \<noteq> 0 then 365 else 366)"

definition DayFromYear :: "int \<Rightarrow> int" where
  "DayFromYear y =
     365 * (y - 1970) + (y - 1969) div 4 - (y - 1901) div 100 + (y - 1601) div 400"

text \<open>
  \<open>YearFromTime t\<close> is the largest year whose first day is not after \<open>t\<close>. It is
  computed from the mean length of a year (146097 days in 400 years) and corrected by one
  year where the estimate is off; \<open>YearFromTime_bounds\<close> below proves the result right.
\<close>

definition YearFromDay :: "int \<Rightarrow> int" where
  "YearFromDay d =
     (let y = 1970 + (d * 400) div 146097
      in if d < DayFromYear y then y - 1
         else if DayFromYear (y + 1) \<le> d then y + 1
         else y)"

definition YearFromTime :: "int \<Rightarrow> int" where
  "YearFromTime t = YearFromDay (Day t)"

definition InLeapYear :: "int \<Rightarrow> int" where
  "InLeapYear t = (if DaysInYear (YearFromTime t) = 366 then 1 else 0)"

definition DayWithinYear :: "int \<Rightarrow> int" where
  "DayWithinYear t = Day t - DayFromYear (YearFromTime t)"

definition MonthFromTime :: "int \<Rightarrow> int" where
  "MonthFromTime t =
     (let d = DayWithinYear t; l = InLeapYear t
      in if d < 31 then 0
         else if d < 59 + l then 1
         else if d < 90 + l then 2
         else if d < 120 + l then 3
         else if d < 151 + l then 4
         else if d < 181 + l then 5
         else if d < 212 + l then 6
         else if d < 243 + l then 7
         else if d < 273 + l then 8
         else if d < 304 + l then 9
         else if d < 334 + l then 10
         else 11)"

text \<open>
  The days of a year before month \<open>mn\<close> (0 to 11); \<open>l\<close> is 1 in a leap year. The
  standard's table for \<open>DateFromTime\<close> subtracts these from the day within the year.
\<close>

definition monthOffset :: "int \<Rightarrow> int \<Rightarrow> int" where
  "monthOffset mn l =
     (if mn = 0 then 0
      else if mn = 1 then 31
      else if mn = 2 then 59 + l
      else if mn = 3 then 90 + l
      else if mn = 4 then 120 + l
      else if mn = 5 then 151 + l
      else if mn = 6 then 181 + l
      else if mn = 7 then 212 + l
      else if mn = 8 then 243 + l
      else if mn = 9 then 273 + l
      else if mn = 10 then 304 + l
      else 334 + l)"

definition DateFromTime :: "int \<Rightarrow> int" where
  "DateFromTime t = DayWithinYear t - monthOffset (MonthFromTime t) (InLeapYear t) + 1"

text \<open>
  The day number of the first day of month \<open>mn\<close> (0 to 11) of year \<open>ym\<close>: the day of
  the time value that \<open>MakeDay\<close> looks for.
\<close>

definition monthStart :: "int \<Rightarrow> int \<Rightarrow> int" where
  "monthStart ym mn = DayFromYear ym + monthOffset mn (if DaysInYear ym = 366 then 1 else 0)"

definition MakeDay :: "int \<Rightarrow> int \<Rightarrow> int \<Rightarrow> int" where
  "MakeDay year month dt =
     (let ym = year + month div 12; mn = month mod 12
      in monthStart ym mn + dt - 1)"

definition MakeDate :: "int \<Rightarrow> int \<Rightarrow> int" where
  "MakeDate day time = day * msPerDay + time"

text \<open>The methods of \<open>Date\<close> that \<open>addInterval\<close> calls; \<open>None\<close> is \<open>NaN\<close>.\<close>

fun getTime :: "Date \<Rightarrow> int option" where
  "getTime (TimeValue t) = Some t"
| "getTime InvalidDate = None"

fun newDate :: "int option \<Rightarrow> Date" where
  "newDate (Some v) = TimeClip v"
| "newDate None = InvalidDate"

fun getUTCDate :: "Date \<Rightarrow> int option" where
  "getUTCDate (TimeValue t) = Some (DateFromTime t)"
| "getUTCDate InvalidDate = None"

fun getUTCMonth :: "Date \<Rightarrow> int option" where
  "getUTCMonth (TimeValue t) = Some (MonthFromTime t)"
| "getUTCMonth InvalidDate = None"

fun setUTCDate :: "Date \<Rightarrow> int option \<Rightarrow> Date" where
  "setUTCDate (TimeValue t) (Some dt) =
     TimeClip (MakeDate (MakeDay (YearFromTime t) (MonthFromTime t) dt) (TimeWithinDay t))"
| "setUTCDate _ _ = InvalidDate"

fun setUTCMonth :: "Date \<Rightarrow> int option \<Rightarrow> Date" where
  "setUTCMonth (TimeValue t) (Some m) =
     TimeClip (MakeDate (MakeDay (YearFromTime t) m (DateFromTime t)) (TimeWithinDay t))"
| "setUTCMonth _ _ = InvalidDate"

text \<open>
  Modelled from the spec: the enumeration \<open>Interval\<close> of the database schema, which is
  not among the source files. The spec names the cadences weekly, biweekly and monthly and
  allows other values; \<open>OtherInterval\<close> stands for any of those.
\<close>

datatype Interval = WEEKLY | BIWEEKLY | MONTHLY | OtherInterval string

fun addInterval :: "Date \<Rightarrow> Interval \<Rightarrow> Date" where
  "addInterval from_date WEEKLY =
     (let next = newDate (getTime from_date)
      in setUTCDate next (map_option (\<lambda>d. d + 7) (getUTCDate next)))"
| "addInterval from_date BIWEEKLY =
     (let next = newDate (getTime from_date)
      in setUTCDate next (map_option (\<lambda>d. d + 14) (getUTCDate next)))"
| "addInterval from_date MONTHLY =
     (let next = newDate (getTime from_date)
      in setUTCMonth next (map_option (\<lambda>m. m + 1) (getUTCMonth next)))"
| "addInterval from_date (OtherInterval v) = newDate (getTime from_date)"

text \<open>
  \<open>new Date(Date.UTC(d.getUTCFullYear(), d.getUTCMonth(), d.getUTCDate(), 0, 0, 0, 0))\<close>;
  \<open>Date.UTC\<close> reads a year from 0 to 99 as a year of the twentieth century.
\<close>

definition startOfUtcDay :: "Date \<Rightarrow> Date" where
  "startOfUtcDay d =
     (case d of
        InvalidDate \<Rightarrow> InvalidDate
      | TimeValue t \<Rightarrow>
          (let y = YearFromTime t;
               yr = (if 0 \<le> y \<and> y \<le> 99 then 1900 + y else y)
           in TimeClip (MakeDate (MakeDay yr (MonthFromTime t) (DateFromTime t)) 0)))"

text \<open>The days of the month that a time value lies in.\<close>

definition DaysInMonth :: "int \<Rightarrow> int \<Rightarrow> int" where
  "DaysInMonth y m =
     (if m = 1 then (if DaysInYear y = 366 then 29 else 28)
      else if m = 3 \<or> m = 5 \<or> m = 8 \<or> m = 10 then 30
      else 31)"

text \<open>
  The calendar reading of a time value, and the calendar's own account of "one month
  later": the same day of the following month, and where that month is too short, as many
  days into the month after it as the day exceeds its length (31 January becomes 2 or 3
  March).
\<close>

definition civil :: "int \<Rightarrow> int \<times> int \<times> int" where
  "civil t = (YearFromTime t, MonthFromTime t, DateFromTime t)"

fun nextMonth :: "int \<times> int \<Rightarrow> int \<times> int" where
  "nextMonth (y, m) = (if m = 11 then (y + 1, 0) else (y, m + 1))"

fun addCalendarMonth :: "int \<times> int \<times> int \<Rightarrow> int \<times> int \<times> int" where
  "addCalendarMonth (y, m, d) =
     (let (y1, m1) = nextMonth (y, m)
      in if d \<le> DaysInMonth y1 m1 then (y1, m1, d)
         else (let (y2, m2) = nextMonth (y1, m1) in (y2, m2, d - DaysInMonth y1 m1)))"

section \<open>The bounded-concurrency executor\<close>

text \<open>
  A thrown value is an \<open>Error\<close> object with its message (an object of the class \<open>Error\<close>
  or of a class derived from it, such as \<open>RangeError\<close>), or some other value.

  A number of the host language is a finite number, one of the two infinities, or \<open>NaN\<close>.
  The finite numbers are taken as reals: every double is one, and the operations used
  here (\<open>Math.max\<close>, \<open>Math.min\<close>, comparison, truncation) are exact on doubles. The request
  body can yield any of them for the two options of the job.
\<close>

datatype thrown = Error string | NonError string

datatype number = Num real | Infinity | NegInfinity | NaN

fun mathMax :: "number \<Rightarrow> number \<Rightarrow> number" where
  "mathMax NaN y = NaN"
| "mathMax x NaN = NaN"
| "mathMax Infinity y = Infinity"
| "mathMax x Infinity = Infinity"
| "mathMax NegInfinity y = y"
| "mathMax x NegInfinity = x"
| "mathMax (Num x) (Num y) = Num (max x y)"

fun mathMin :: "number \<Rightarrow> number \<Rightarrow> number" where
  "mathMin NaN y = NaN"
| "mathMin x NaN = NaN"
| "mathMin NegInfinity y = NegInfinity"
| "mathMin x NegInfinity = NegInfinity"
| "mathMin Infinity y = y"
| "mathMin x Infinity = x"
| "mathMin (Num x) (Num y) = Num (min x y)"

text \<open>
  \<open>ToLength\<close> of the language standard, by which \<open>Array.from\<close> reads the \<open>length\<close> of its
  argument: the number truncated to an integer and clamped to \<open>0 .. 2\<^sup>5\<^sup>3 - 1\<close>, and 0 for
  \<open>NaN\<close>. (Truncation and \<open>floor\<close> differ on negative fractions only, which are clamped
  to 0 either way.)
\<close>

definition ToLength :: "number \<Rightarrow> int" where
  "ToLength x =
     (case x of
        Num r \<Rightarrow> min (max \<lfloor>r\<rfloor> 0) 9007199254740991
      | Infinity \<Rightarrow> 9007199254740991
      | NegInfinity \<Rightarrow> 0
      | NaN \<Rightarrow> 0)"

text \<open>
  An asynchronous mapper runs in two steps. \<open>call\<close> is the synchronous part of
  \<open>mapper(item, index)\<close>: it may read and change the shared state \<open>'s\<close> and leaves a
  pending operation \<open>'p\<close>. \<open>settle\<close> is what happens when the pending operation
  completes: the promise is fulfilled with a result or rejected with a thrown value, and
  the shared state may change again.
\<close>

record ('a, 'p, 'r, 's) mapper =
  call :: "'a \<Rightarrow> nat \<Rightarrow> 's \<Rightarrow> 'p \<times> 's"
  settle :: "'p \<Rightarrow> 's \<Rightarrow> (thrown + 'r) \<times> 's"

text \<open>
  A worker is suspended at its \<open>await\<close> on the operation for an index, or has returned,
  or has thrown. The state of one call of \<open>mapWithConcurrency\<close>: the variables
  \<open>nextIndex\<close> and \<open>results\<close> (\<open>None\<close> is an empty slot), the workers, and the rejection
  that \<open>Promise.all\<close> has passed on to the caller, if any. \<open>calls\<close>, \<open>settled\<close>,
  \<open>fulfilled\<close> and \<open>failures\<close> are history: the indices the mapper was called with, those
  whose operation has completed, the results of the operations that succeeded (each with
  its index), and the values the failed operations have thrown, each in order of time.
\<close>

datatype 'p worker = Awaiting nat 'p | Returned | Rejected thrown

record ('p, 'r, 's) exec =
  nextIndex :: nat
  results :: "'r option list"
  workers :: "'p worker list"
  rejection :: "thrown option"
  calls :: "nat list"
  settled :: "nat list"
  fulfilled :: "(nat \<times> 'r) list"
  failures :: "thrown list"
  shared :: 's

definition initial :: "'a list \<Rightarrow> 's \<Rightarrow> ('p, 'r, 's) exec" where
  "initial items s =
     \<lparr>nextIndex = 0, results = replicate (length items) None, workers = [],
      rejection = None, calls = [], settled = [], fulfilled = [], failures = [],
      shared = s\<rparr>"

text \<open>
  One turn of the worker's loop, from \<open>const current = nextIndex++\<close> to the \<open>return\<close> or
  to the \<open>await\<close>: the state the worker is left in, and the new state of the call.
\<close>

definition workerLoop ::
  "'a list \<Rightarrow> ('a, 'p, 'r, 's) mapper \<Rightarrow> ('p, 'r, 's) exec \<Rightarrow> 'p worker \<times> ('p, 'r, 's) exec" where
  "workerLoop items m st =
     (let current = nextIndex st;
          st1 = st\<lparr>nextIndex := current + 1\<rparr>
      in if current \<ge> length items then (Returned, st1)
         else (let (p, s') = call m (items ! current) current (shared st1)
               in (Awaiting current p, st1\<lparr>calls := calls st1 @ [current], shared := s'\<rparr>)))"

text \<open>
  \<open>Array.from({length: n}, async () => ...)\<close> starts the workers one after the
  other; each runs until its first \<open>await\<close> or \<open>return\<close> before the next one starts.
\<close>

fun spawn ::
  "nat \<Rightarrow> 'a list \<Rightarrow> ('a, 'p, 'r, 's) mapper \<Rightarrow> ('p, 'r, 's) exec \<Rightarrow> ('p, 'r, 's) exec" where
  "spawn 0 items m st = st"
| "spawn (Suc n) items m st =
     (let (w, st') = workerLoop items m st
      in spawn n items m (st'\<lparr>workers := workers st' @ [w]\<rparr>))"

text \<open>
  The operation that worker \<open>w\<close> awaits completes, and the worker runs on to its next
  \<open>await\<close>, to its \<open>return\<close>, or throws. \<open>Promise.all\<close> rejects with the first rejection
  among the workers and ignores later ones.
\<close>

definition resume ::
  "'a list \<Rightarrow> ('a, 'p, 'r, 's) mapper \<Rightarrow> nat \<Rightarrow> ('p, 'r, 's) exec \<Rightarrow> ('p, 'r, 's) exec" where
  "resume items m w st =
     (if w < length (workers st) then
        (case workers st ! w of
           Awaiting i p \<Rightarrow>
             (let (out, s') = settle m p (shared st);
                  st1 = st\<lparr>shared := s', settled := settled st @ [i]\<rparr>
              in case out of
                   Inl e \<Rightarrow>
                     st1\<lparr>workers := (workers st1)[w := Rejected e],
                         failures := failures st1 @ [e],
                         rejection := (case rejection st1 of None \<Rightarrow> Some e | Some e0 \<Rightarrow> Some e0)\<rparr>
                 | Inr r \<Rightarrow>
                     (let st2 = st1\<lparr>results := (results st1)[i := Some r],
                                    fulfilled := fulfilled st1 @ [(i, r)]\<rparr>;
                          (wk, st3) = workerLoop items m st2
                      in st3\<lparr>workers := (workers st3)[w := wk]\<rparr>))
         | Returned \<Rightarrow> st
         | Rejected e \<Rightarrow> st)
      else st)"

fun isAwaiting :: "'p worker \<Rightarrow> bool" where
  "isAwaiting (Awaiting i p) = True"
| "isAwaiting Returned = False"
| "isAwaiting (Rejected e) = False"

definition awaiting :: "'p worker list \<Rightarrow> nat list" where
  "awaiting ws = filter (\<lambda>w. isAwaiting (ws ! w)) [0..<length ws]"

text \<open>
  The order in which pending operations complete is not the program's choice. A schedule
  is a list of numbers: each picks, among the workers that are waiting, the one whose
  operation completes next (modulo their number; the first one when the list has run out).
\<close>

definition pick :: "nat list \<Rightarrow> nat list \<Rightarrow> nat" where
  "pick sched pending =
     pending ! (case sched of [] \<Rightarrow> 0 | c # cs \<Rightarrow> c mod length pending)"

definition unfinished :: "'a list \<Rightarrow> ('p, 'r, 's) exec \<Rightarrow> nat" where
  "unfinished items st = length (filter isAwaiting (workers st)) + (length items - nextIndex st)"

text \<open>
  Every completion takes the call closer to its end: a worker stops waiting, or an index
  is claimed. This is the measure by which \<open>run\<close> below terminates.
\<close>

lemma filter_update_count:
  "i < length xs \<Longrightarrow>
   length (filter P (xs[i := x])) + (if P (xs ! i) then 1 else 0)
     = length (filter P xs) + (if P x then 1 else 0)"
proof (induction xs arbitrary: i)
  case Nil then show ?case by simp
next
  case (Cons a xs)
  then show ?case by (cases i) auto
qed

lemma awaiting_set: "w \<in> set (awaiting ws) \<longleftrightarrow> w < length ws \<and> isAwaiting (ws ! w)"
  by (auto simp: awaiting_def)

lemma pick_in: "pending \<noteq> [] \<Longrightarrow> pick sched pending \<in> set pending"
  by (auto simp: pick_def split: list.splits)

lemma workerLoop_fields:
  assumes "workerLoop items m st = (wk, st')"
  shows "nextIndex st' = nextIndex st + 1" "results st' = results st" "workers st' = workers st"
    "rejection st' = rejection st" "settled st' = settled st"
    "isAwaiting wk \<longleftrightarrow> nextIndex st < length items"
  using assms by (auto simp: workerLoop_def Let_def split: if_splits prod.splits)

lemma resume_decreases:
  assumes "w \<in> set (awaiting (workers st))"
  shows "unfinished items (resume items m w st) < unfinished items st"
proof -
  from assms have w: "w < length (workers st)" and a: "isAwaiting (workers st ! w)"
    by (simp_all add: awaiting_set)
  then obtain i p where ip: "workers st ! w = Awaiting i p" by (cases "workers st ! w") auto
  obtain out s' where o: "settle m p (shared st) = (out, s')" by (cases "settle m p (shared st)")
  show ?thesis
  proof (cases out)
    case (Inl e)
    then show ?thesis
      using w ip o filter_update_count[OF w, of isAwaiting "Rejected e"]
      by (simp add: resume_def unfinished_def)
  next
    case (Inr r)
    define st2 where "st2 = st\<lparr>shared := s', settled := settled st @ [i],
        results := (results st)[i := Some r], fulfilled := fulfilled st @ [(i, r)]\<rparr>"
    obtain wk st3 where l: "workerLoop items m st2 = (wk, st3)" by (cases "workerLoop items m st2")
    have r: "resume items m w st = st3\<lparr>workers := (workers st3)[w := wk]\<rparr>"
      using w ip o Inr l by (simp add: resume_def st2_def)
    note f = workerLoop_fields[OF l]
    have ws: "workers st3 = workers st" "nextIndex st3 = nextIndex st + 1" "nextIndex st2 = nextIndex st"
      using f by (simp_all add: st2_def)
    show ?thesis
      using filter_update_count[OF w, of isAwaiting wk] a f(6)
      by (auto simp add: r unfinished_def ws)
  qed
qed

text \<open>
  Pending operations complete, in the order of the schedule, until no worker is waiting.
  After a rejection the other workers are not cancelled: they go on claiming indices and
  calling the mapper until the items run out. \<open>run\<close> is the call up to the moment when all
  of its operations have completed.
\<close>

function run ::
  "'a list \<Rightarrow> ('a, 'p, 'r, 's) mapper \<Rightarrow> nat list \<Rightarrow> ('p, 'r, 's) exec \<Rightarrow> ('p, 'r, 's) exec" where
  "run items m sched st =
     (let pending = awaiting (workers st)
      in if pending = [] then st
         else run items m (tl sched) (resume items m (pick sched pending) st))"
  by pat_completeness auto
termination
  by (relation "measure (\<lambda>(items, m, sched, st). unfinished items st)")
     (auto simp: resume_decreases pick_in)

declare run.simps [simp del]

text \<open>
  \<open>await Promise.all(workers)\<close> as the caller sees it: the caller is resumed when every
  worker has returned, or at the first rejection, whichever comes first. At a rejection
  the workers still waiting are left behind with their operations pending.
\<close>

function awaitAll ::
  "'a list \<Rightarrow> ('a, 'p, 'r, 's) mapper \<Rightarrow> nat list \<Rightarrow> ('p, 'r, 's) exec \<Rightarrow> ('p, 'r, 's) exec" where
  "awaitAll items m sched st =
     (let pending = awaiting (workers st)
      in if rejection st \<noteq> None \<or> pending = [] then st
         else awaitAll items m (tl sched) (resume items m (pick sched pending) st))"
  by pat_completeness auto
termination
  by (relation "measure (\<lambda>(items, m, sched, st). unfinished items st)")
     (auto simp: resume_decreases pick_in)

declare awaitAll.simps [simp del]

text \<open>
  \<open>Array.from({ length: Math.max(1, concurrency) }, ...)\<close>: the number of workers is
  \<open>ToLength\<close> of the maximum, and \<open>Array.from\<close> creates the array of that length before it
  calls the function for the first time, which throws a \<open>RangeError\<close> for a length above
  \<open>2\<^sup>3\<^sup>2 - 1\<close>.
\<close>

definition workerCount :: "number \<Rightarrow> thrown + nat" where
  "workerCount concurrency =
     (let len = ToLength (mathMax (Num 1) concurrency)
      in if len > 4294967295 then Inl (Error ''Invalid array length'') else Inr (nat len))"

text \<open>
  A call of \<open>mapWithConcurrency\<close>, up to the moment its caller is resumed: what the caller
  gets (the exception of \<open>Array.from\<close>, the rejection of \<open>Promise.all\<close>, or the array
  \<open>results\<close> once every worker has returned), and the state of the call at that moment.
  The caller runs on from the shared state of that state; the workers still waiting in it
  are the operations left in the background.
\<close>

definition mapWithConcurrency ::
  "'a list \<Rightarrow> number \<Rightarrow> ('a, 'p, 'r, 's) mapper \<Rightarrow> nat list \<Rightarrow> 's
     \<Rightarrow> (thrown + 'r option list) \<times> ('p, 'r, 's) exec" where
  "mapWithConcurrency items concurrency m sched s =
     (case workerCount concurrency of
        Inl e \<Rightarrow> (Inl e, initial items s)
      | Inr n \<Rightarrow>
          (let st = awaitAll items m sched (spawn n items m (initial items s))
           in (case rejection st of Some e \<Rightarrow> Inl e | None \<Rightarrow> Inr (results st), st)))"

text \<open>
  The final state of the call: the state once every operation it has started has
  completed, when nothing else changes the shared state in between.
\<close>

definition finalState ::
  "'a list \<Rightarrow> number \<Rightarrow> ('a, 'p, 'r, 's) mapper \<Rightarrow> nat list \<Rightarrow> 's \<Rightarrow> ('p, 'r, 's) exec" where
  "finalState items concurrency m sched s =
     (case workerCount concurrency of
        Inl e \<Rightarrow> initial items s
      | Inr n \<Rightarrow> run items m sched (spawn n items m (initial items s)))"

text \<open>
  The states a call can be in: while the workers are started, and after any number of
  completions in any order.
\<close>

inductive reach ::
  "'a list \<Rightarrow> ('a, 'p, 'r, 's) mapper \<Rightarrow> nat \<Rightarrow> 's \<Rightarrow> ('p, 'r, 's) exec \<Rightarrow> bool"
  for items m n s where
  starting: "j \<le> n \<Longrightarrow> reach items m n s (spawn j items m (initial items s))"
| completion:
    "reach items m n s st \<Longrightarrow> length (workers st) = n \<Longrightarrow> w \<in> set (awaiting (workers st))
       \<Longrightarrow> reach items m n s (resume items m w st)"

text \<open>The operations in flight: called and not yet completed.\<close>

definition inflight :: "('p, 'r, 's) exec \<Rightarrow> nat" where
  "inflight st = length (calls st) - length (settled st)"

text \<open>
  A mapper whose outcome is a function \<open>f\<close> of the item and the index, whatever the
  shared state; and the mapper that is nothing but such a function.
\<close>

definition outcome :: "('a, 'p, 'r, 's) mapper \<Rightarrow> ('a \<Rightarrow> nat \<Rightarrow> thrown + 'r) \<Rightarrow> bool" where
  "outcome m f = (\<forall>x i s s'. fst (settle m (fst (call m x i s)) s') = f x i)"

definition pureMapper :: "('a \<Rightarrow> nat \<Rightarrow> thrown + 'r) \<Rightarrow> ('a, thrown + 'r, 'r, 's) mapper" where
  "pureMapper f = \<lparr>call = (\<lambda>x i s. (f x i, s)), settle = (\<lambda>p s. (p, s))\<rparr>"

text \<open>
  Mapping sequentially, in input order: the results, or the first failure. The last
  argument is the index of the first item.
\<close>

fun mapSequential :: "('a \<Rightarrow> nat \<Rightarrow> thrown + 'r) \<Rightarrow> 'a list \<Rightarrow> nat \<Rightarrow> thrown + 'r list" where
  "mapSequential f [] i = Inr []"
| "mapSequential f (x # xs) i =
     (case f x i of
        Inl e \<Rightarrow> Inl e
      | Inr r \<Rightarrow> (case mapSequential f xs (Suc i) of Inl e \<Rightarrow> Inl e | Inr rs \<Rightarrow> Inr (r # rs)))"

text \<open>The first failure among the operations that completed, in order of completion.\<close>

fun firstFailure :: "('a \<Rightarrow> nat \<Rightarrow> thrown + 'r) \<Rightarrow> 'a list \<Rightarrow> nat list \<Rightarrow> thrown option" where
  "firstFailure f items [] = None"
| "firstFailure f items (i # is) =
     (case f (items ! i) i of Inl e \<Rightarrow> Some e | Inr r \<Rightarrow> firstFailure f items is)"

text \<open>
  What holds of every state of a call. The count: the operations in flight are those the
  waiting workers wait for.
\<close>

definition inv_count :: "('p, 'r, 's) exec \<Rightarrow> bool" where
  "inv_count st \<longleftrightarrow>
     length (calls st) = length (settled st) + length (filter isAwaiting (workers st))"

text \<open>
  The indices: the array \<open>results\<close> keeps its length; the mapper has been called with
  the indices below \<open>nextIndex\<close> that exist, in order; each of them is either awaited by
  exactly one worker or completed exactly once; and no worker has returned while an
  index is left to claim.
\<close>

fun awaitedIndex :: "'p worker \<Rightarrow> nat list" where
  "awaitedIndex (Awaiting i p) = [i]"
| "awaitedIndex Returned = []"
| "awaitedIndex (Rejected e) = []"

definition awaited :: "'p worker list \<Rightarrow> nat list" where
  "awaited ws = concat (map awaitedIndex ws)"

definition inv_idx :: "'a list \<Rightarrow> ('p, 'r, 's) exec \<Rightarrow> bool" where
  "inv_idx items st \<longleftrightarrow>
     length (results st) = length items
   \<and> calls st = [0..<min (nextIndex st) (length items)]
   \<and> mset (awaited (workers st)) + mset (settled st) = mset [0..<min (nextIndex st) (length items)]
   \<and> (nextIndex st < length items \<longrightarrow> Returned \<notin> set (workers st))"

text \<open>
  The outcomes, for a mapper whose outcome is the function \<open>f\<close>: a completed operation
  that succeeded has its result in its slot, and the rejection passed to the caller is the
  first failure in order of completion.
\<close>

definition inv_out ::
  "'a list \<Rightarrow> ('a, 'p, 'r, 's) mapper \<Rightarrow> ('a \<Rightarrow> nat \<Rightarrow> thrown + 'r) \<Rightarrow> ('p, 'r, 's) exec \<Rightarrow> bool" where
  "inv_out items m f st \<longleftrightarrow>
     (\<forall>i p. Awaiting i p \<in> set (workers st) \<longrightarrow> (\<exists>s. p = fst (call m (items ! i) i s)))
   \<and> (\<forall>i\<in>set (settled st). \<forall>r. f (items ! i) i = Inr r \<longrightarrow> results st ! i = Some r)
   \<and> firstFailure f items (settled st) = rejection st
   \<and> (\<forall>e. Rejected e \<in> set (workers st) \<longrightarrow> rejection st \<noteq> None)"

text \<open>
  The rejection: what \<open>Promise.all\<close> has passed on is the first of the failures.
\<close>

definition inv_fail :: "('p, 'r, 's) exec \<Rightarrow> bool" where
  "inv_fail st \<longleftrightarrow> rejection st = (case failures st of [] \<Rightarrow> None | e # es \<Rightarrow> Some e)"

text \<open>
  The results: a slot of \<open>results\<close> holds a value exactly when the operation for its index
  has succeeded, and then the value that operation was fulfilled with; an operation that
  has completed has succeeded unless something has been thrown; and a worker has thrown
  only if a failure is recorded.
\<close>

definition inv_res :: "('p, 'r, 's) exec \<Rightarrow> bool" where
  "inv_res st \<longleftrightarrow>
     (\<forall>i r. i < length (results st) \<longrightarrow> (results st ! i = Some r \<longleftrightarrow> (i, r) \<in> set (fulfilled st)))
   \<and> fst ` set (fulfilled st) \<subseteq> set (settled st)
   \<and> (failures st = [] \<longrightarrow> map fst (fulfilled st) = settled st)
   \<and> (\<forall>e. Rejected e \<in> set (workers st) \<longrightarrow> failures st \<noteq> [])"

text \<open>
  The applications: a pending operation is one that a call of the mapper with the item of
  its index has left, and a recorded result is what the completion of such an operation
  has yielded.
\<close>

definition inv_app :: "'a list \<Rightarrow> ('a, 'p, 'r, 's) mapper \<Rightarrow> ('p, 'r, 's) exec \<Rightarrow> bool" where
  "inv_app items m st \<longleftrightarrow>
     (\<forall>i p. Awaiting i p \<in> set (workers st) \<longrightarrow> (\<exists>s. p = fst (call m (items ! i) i s)))
   \<and> (\<forall>i r. (i, r) \<in> set (fulfilled st) \<longrightarrow>
         (\<exists>s s'. fst (settle m (fst (call m (items ! i) i s)) s') = Inr r))"

text \<open>
  A call in which nothing can fail: the shared state is one in which every application
  succeeds (\<open>Q\<close>), nothing has been thrown, and every pending operation is one that
  succeeds (\<open>G\<close>).
\<close>

definition inv_good :: "('p \<Rightarrow> bool) \<Rightarrow> ('s \<Rightarrow> bool) \<Rightarrow> ('p, 'r, 's) exec \<Rightarrow> bool" where
  "inv_good G Q st \<longleftrightarrow>
     Q (shared st) \<and> failures st = [] \<and> (\<forall>i p. Awaiting i p \<in> set (workers st) \<longrightarrow> G p)"

section \<open>Messages and content extraction\<close>

record GmailMessageContent =
  msg_id :: string
  threadId :: "string option"
  snippet :: "string option"
  internalDate :: "string option"
  headers :: "string \<rightharpoonup> string"
  msg_text :: string
  html :: "string option"

record ExtractedLink =
  url :: string
  link_label :: string
  is_read_more :: bool

record ExtractionResult =
  result_articles :: "ExtractedArticle list"
  all_links :: "ExtractedLink list"
  main_content :: "string option"
  articles_fetched :: bool

record ExtractParams =
  p_html :: string
  p_text :: "string option"
  baseUrl :: "string option"
  fetchTimeout :: "int option"
  maxFetchContent :: "int option"

record ExtractRequest =
  rq_html :: string
  rq_text :: "string option"
  base_url :: "string option"
  fetch_timeout :: int
  max_fetch_content :: int

text \<open>
  The extraction service is reached by an HTTP request; \<open>post\<close> stands for the service
  and the network. A request fails with an error of the HTTP client (its code, the detail
  of the response if there is one, and its message) or with some other thrown value.
\<close>

datatype axiosFailure = AxiosError "string option" "string option" string | OtherFailure thrown

definition extractEmailContent ::
  "(ExtractRequest \<Rightarrow> axiosFailure + ExtractionResult) \<Rightarrow> ExtractParams \<Rightarrow> thrown + ExtractionResult" where
  "extractEmailContent post params =
     (let timeout = (case fetchTimeout params of None \<Rightarrow> 30 | Some t \<Rightarrow> t);
          maxContent = (case maxFetchContent params of None \<Rightarrow> 5000 | Some c \<Rightarrow> c)
      in case post \<lparr>rq_html = p_html params, rq_text = p_text params, base_url = baseUrl params,
                     fetch_timeout = timeout, max_fetch_content = maxContent\<rparr> of
           Inr data \<Rightarrow> Inr data
         | Inl (AxiosError code detail message) \<Rightarrow>
             (if code = Some ''ECONNREFUSED''
              then Inl (Error ''Email extractor service is not running. Start it with: cd extractor && python main.py'')
              else Inl (Error (''Extraction failed: '' @ nullish (orElse detail (Some message)) [])))
         | Inl (OtherFailure t) \<Rightarrow> Inl t)"

text \<open>
  The callback of \<open>extractEmailsContent\<close>. An element of the array may be an empty slot
  (\<open>None\<close>), for which reading \<open>email.html\<close> throws. The object built from the plain text
  is written three times in the source; here it is \<open>plainTextEmail\<close>.
\<close>

definition plainTextArticle :: "string \<Rightarrow> ExtractedArticle" where
  "plainTextArticle t =
     \<lparr>art_text = t, link = None, link_text = None, title = None, fetched_content = None,
      fetched_title = None, fetched_url = None, fetch_error = None, fetch_method = None\<rparr>"

definition plainTextEmail :: "GmailMessageContent \<Rightarrow> ExtractedEmail" where
  "plainTextEmail email =
     \<lparr>subject = headers email ''Subject'', from_addr = headers email ''From'',
      date = headers email ''Date'', articles = [plainTextArticle (msg_text email)]\<rparr>"

definition extractParams :: "GmailMessageContent \<Rightarrow> ExtractParams" where
  "extractParams email =
     \<lparr>p_html = nullish (html email) [], p_text = Some (msg_text email), baseUrl = None,
      fetchTimeout = Some 30, maxFetchContent = Some 5000\<rparr>"

text \<open>
  The pending operation of one application of the callback: nothing to wait for (no HTML
  body, or no message), or the request to the extraction service with its outcome. The
  shared state of the step is the list of the requests made to the extraction service.
\<close>

datatype pendingExtract =
    NoMessage
  | PlainText GmailMessageContent
  | Extracting GmailMessageContent "thrown + ExtractionResult"

definition extractMapper ::
  "(ExtractRequest \<Rightarrow> axiosFailure + ExtractionResult)
     \<Rightarrow> (GmailMessageContent option, pendingExtract, ExtractedEmail, ExtractParams list) mapper" where
  "extractMapper post =
     \<lparr>call = (\<lambda>item i requests.
         case item of
           None \<Rightarrow> (NoMessage, requests)
         | Some email \<Rightarrow>
             if \<not> truthy (html email) then (PlainText email, requests)
             else (Extracting email (extractEmailContent post (extractParams email)),
                   requests @ [extractParams email])),
      settle = (\<lambda>p requests.
         case p of
           NoMessage \<Rightarrow>
             (Inl (Error ''Cannot read properties of undefined (reading 'html')''), requests)
         | PlainText email \<Rightarrow> (Inr (plainTextEmail email), requests)
         | Extracting email (Inr extracted) \<Rightarrow>
             (Inr \<lparr>subject = headers email ''Subject'', from_addr = headers email ''From'',
                   date = headers email ''Date'', articles = result_articles extracted\<rparr>, requests)
         | Extracting email (Inl err) \<Rightarrow> (Inr (plainTextEmail email), requests))\<rparr>"

definition extractEmailsContent ::
  "(ExtractRequest \<Rightarrow> axiosFailure + ExtractionResult) \<Rightarrow> GmailMessageContent option list
     \<Rightarrow> nat list \<Rightarrow> ExtractParams list \<Rightarrow> (thrown + ExtractedEmail option list) \<times> ExtractParams list" where
  "extractEmailsContent post emails sched requests =
     (let (extracted, st) = mapWithConcurrency emails (Num 4) (extractMapper post) sched requests
      in (extracted, shared st))"

text \<open>What the callback yields for one message, whatever the schedule.\<close>

definition extractedEmail ::
  "(ExtractRequest \<Rightarrow> axiosFailure + ExtractionResult) \<Rightarrow> GmailMessageContent option \<Rightarrow> nat
     \<Rightarrow> thrown + ExtractedEmail" where
  "extractedEmail post item i =
     fst (settle (extractMapper post) (fst (call (extractMapper post) item i [])) [])"

section \<open>The subscription pipeline\<close>

record GmailCredentials =
  accessToken :: string
  refreshToken :: "string option"
  expiresAt :: "Date option"

record RefreshedCredentials =
  refreshed_accessToken :: string
  refreshed_expiresAt :: "Date option"

record GmailListResult =
  messageIds :: "string list"
  list_refreshedCredentials :: "RefreshedCredentials option"

text \<open>
  Modelled from the spec: the records of the database (the schema is not among the source
  files), with the fields the controller reads and writes, and the result of the
  speech-synthesis collaborator (a script and/or an audio reference).
\<close>

record EmailAccount =
  account_id :: string
  stored_accessToken :: "string option"
  stored_refreshToken :: "string option"
  stored_expiresAt :: "Date option"

record Newsletter =
  newsletter_id :: string
  interval :: Interval
  selectedEmails :: "string list option"
  isActive :: bool
  lastRun :: "Date option"
  nextRun :: Date

record PodcastResult =
  script :: "string option"
  audioFilename :: "string option"

record PodcastOptions =
  podcast_format :: string
  speakers :: "(string \<times> string) list"

definition DEFAULT_PODCAST_OPTIONS :: PodcastOptions where
  "DEFAULT_PODCAST_OPTIONS =
     \<lparr>podcast_format = ''interview'',
      speakers = [(''Host'', ''en-US-Studio-Q''), (''Guest'', ''en-US-Studio-O'')]\<rparr>"

record EmailSnapshot =
  snap_id :: string
  snap_threadId :: "string option"
  snap_snippet :: "string option"
  snap_internalDate :: "string option"
  snap_headers :: "string \<rightharpoonup> string"

record NewsletterHistory =
  history_id :: string
  history_newsletterId :: string
  summary_fetchedEmailCount :: nat
  summary_podcast :: PodcastResult
  history_emails :: "EmailSnapshot list"

record Database =
  emailAccounts :: "string \<rightharpoonup> EmailAccount"
  newsletters :: "string \<rightharpoonup> Newsletter"
  histories :: "NewsletterHistory list"

text \<open>
  The collaborators: the mail provider, the extraction service, the speech synthesis, the
  encryption, and what of the database is not its contents (whether a write fails, and
  the identifier it gives a new record). The provider query is built from the selected
  senders and the after-instant by \<open>buildGmailQuery\<close>; the model passes these two on.
\<close>

datatype dbWrite = UpdateEmailAccount string | CreateHistory string | UpdateNewsletter string

record Collaborators =
  gmailListMessageIds ::
    "GmailCredentials \<Rightarrow> string list \<Rightarrow> int option \<Rightarrow> number \<Rightarrow> thrown + GmailListResult"
  gmailGetMessageText ::
    "GmailCredentials \<Rightarrow> string \<Rightarrow> thrown + GmailMessageContent \<times> RefreshedCredentials option"
  extractorPost :: "ExtractRequest \<Rightarrow> axiosFailure + ExtractionResult"
  createPodcastFromText :: "string \<Rightarrow> PodcastOptions \<Rightarrow> thrown + PodcastResult"
  encrypt :: "string \<Rightarrow> thrown + string"
  decrypt :: "string \<Rightarrow> thrown + string"
  writeFailure :: "dbWrite \<Rightarrow> Database \<Rightarrow> thrown option"
  newHistoryId :: "Database \<Rightarrow> string"
  isoString :: "int \<Rightarrow> string"

text \<open>
  \<open>createCredentialsUpdater\<close> returns an object closed over \<open>emailAccountId\<close> and over a
  variable \<open>currentCredentials\<close> of its own. Here the object is the number of its variable
  with the account identifier, and the state holds the variables of the managers created
  so far.
\<close>

record CredentialsManager =
  manager_ref :: nat
  manager_account :: string

text \<open>
  The pending operation of one application of the fetch callback: the request for a
  message, with its outcome.
\<close>

type_synonym fetching = "thrown + GmailMessageContent \<times> RefreshedCredentials option"

text \<open>
  A call of \<open>mapWithConcurrency\<close> whose caller was resumed by a rejection leaves its other
  workers behind: their operations are still pending, and when one completes the worker
  goes on with the next message. What is left of such a call of the fetch: the message
  identifiers, the credentials manager its callback uses, and the state of the call.
\<close>

record Leftover =
  left_items :: "string list"
  left_manager :: CredentialsManager
  left_call :: "(fetching, GmailMessageContent, unit) exec"

text \<open>
  The state a run changes: the variables of the credentials managers, the database, and
  the calls left in the background. \<open>interleaving\<close> is not the program's: it tells, for
  each time the job waits for an operation, which operations of the background complete
  in the meantime.
\<close>

record World =
  currentCredentials :: "nat \<Rightarrow> GmailCredentials"
  managers :: nat
  database :: Database
  background :: "Leftover list"
  interleaving :: "nat list list"

text \<open>The three writes. An update of a record that does not exist throws.\<close>

definition emailAccountUpdate ::
  "Collaborators \<Rightarrow> string \<Rightarrow> string \<Rightarrow> Date option \<Rightarrow> Database \<Rightarrow> thrown + Database" where
  "emailAccountUpdate env ident token expires db =
     (case writeFailure env (UpdateEmailAccount ident) db of
        Some e \<Rightarrow> Inl e
      | None \<Rightarrow>
          (case emailAccounts db ident of
             None \<Rightarrow> Inl (Error ''Record to update not found.'')
           | Some a \<Rightarrow>
               Inr (db\<lparr>emailAccounts := (emailAccounts db)
                      (ident \<mapsto> a\<lparr>stored_accessToken := Some token, stored_expiresAt := expires\<rparr>)\<rparr>)))"

definition newsletterUpdate ::
  "Collaborators \<Rightarrow> string \<Rightarrow> Date \<Rightarrow> Date \<Rightarrow> Database \<Rightarrow> thrown + Database" where
  "newsletterUpdate env ident newLastRun newNextRun db =
     (case writeFailure env (UpdateNewsletter ident) db of
        Some e \<Rightarrow> Inl e
      | None \<Rightarrow>
          (case newsletters db ident of
             None \<Rightarrow> Inl (Error ''Record to update not found.'')
           | Some n \<Rightarrow>
               Inr (db\<lparr>newsletters := (newsletters db)
                      (ident \<mapsto> n\<lparr>lastRun := Some newLastRun, nextRun := newNextRun\<rparr>)\<rparr>)))"

definition newsletterHistoryCreate ::
  "Collaborators \<Rightarrow> string \<Rightarrow> nat \<Rightarrow> PodcastResult \<Rightarrow> EmailSnapshot list \<Rightarrow> Database
     \<Rightarrow> thrown + NewsletterHistory \<times> Database" where
  "newsletterHistoryCreate env newsletterId n podcast snaps db =
     (case writeFailure env (CreateHistory newsletterId) db of
        Some e \<Rightarrow> Inl e
      | None \<Rightarrow>
          (let h = \<lparr>history_id = newHistoryId env db, history_newsletterId = newsletterId,
                    summary_fetchedEmailCount = n, summary_podcast = podcast,
                    history_emails = snaps\<rparr>
           in Inr (h, db\<lparr>histories := histories db @ [h]\<rparr>)))"

text \<open>
  \<open>createCredentialsUpdater(emailAccountId, credentials)\<close> and the two methods of the
  object it returns. In \<open>updateIfRefreshed\<close> the variable is assigned first; the write to
  the database is taken to complete in the same step.
\<close>

definition createCredentialsUpdater ::
  "string \<Rightarrow> GmailCredentials \<Rightarrow> World \<Rightarrow> CredentialsManager \<times> World" where
  "createCredentialsUpdater emailAccountId creds w =
     (\<lparr>manager_ref = managers w, manager_account = emailAccountId\<rparr>,
      w\<lparr>currentCredentials := (currentCredentials w)(managers w := creds),
        managers := managers w + 1\<rparr>)"

definition getCredentials :: "CredentialsManager \<Rightarrow> World \<Rightarrow> GmailCredentials" where
  "getCredentials cm w = currentCredentials w (manager_ref cm)"

definition updateIfRefreshed ::
  "Collaborators \<Rightarrow> CredentialsManager \<Rightarrow> RefreshedCredentials option \<Rightarrow> World
     \<Rightarrow> (thrown + unit) \<times> World" where
  "updateIfRefreshed env cm refreshed w =
     (case refreshed of
        None \<Rightarrow> (Inr (), w)
      | Some r \<Rightarrow>
          (let w1 = w\<lparr>currentCredentials := (currentCredentials w)
                       (manager_ref cm := (getCredentials cm w)
                          \<lparr>accessToken := refreshed_accessToken r, expiresAt := refreshed_expiresAt r\<rparr>)\<rparr>
           in case encrypt env (refreshed_accessToken r) of
                Inl e \<Rightarrow> (Inl e, w1)
              | Inr secret \<Rightarrow>
                  (case emailAccountUpdate env (manager_account cm) secret (refreshed_expiresAt r)
                          (database w1) of
                     Inl e \<Rightarrow> (Inl e, w1)
                   | Inr db \<Rightarrow> (Inr (), w1\<lparr>database := db\<rparr>))))"

record NewsletterProcessingOptions =
  maxEmailsPerNewsletter :: number
  gmailFetchConcurrency :: number

text \<open>
  The callback of the fetch: the call reads the current credentials and starts the
  request; when the request completes, a refreshed credential is stored before the
  message is returned.
\<close>

definition fetchMapper ::
  "Collaborators \<Rightarrow> CredentialsManager \<Rightarrow> (string, fetching, GmailMessageContent, World) mapper" where
  "fetchMapper env cm =
     \<lparr>call = (\<lambda>ident i w. (gmailGetMessageText env (getCredentials cm w) ident, w)),
      settle = (\<lambda>response w.
         case response of
           Inl e \<Rightarrow> (Inl e, w)
         | Inr (message, refreshed) \<Rightarrow>
             (case updateIfRefreshed env cm refreshed w of
                (Inl e, w') \<Rightarrow> (Inl e, w')
              | (Inr u, w') \<Rightarrow> (Inr message, w')))\<rparr>"

text \<open>
  The background. The state of a call with another shared state in place of its own; the
  operations pending in the background, each as the number of the call left behind and
  the number of its worker; and the completion of one of them: the worker runs on as in
  the call it belongs to.
\<close>

definition reshare :: "('p, 'r, 's) exec \<Rightarrow> 't \<Rightarrow> ('p, 'r, 't) exec" where
  "reshare st s =
     \<lparr>nextIndex = nextIndex st, results = results st, workers = workers st,
      rejection = rejection st, calls = calls st, settled = settled st,
      fulfilled = fulfilled st, failures = failures st, shared = s\<rparr>"

definition pendingBackground :: "World \<Rightarrow> (nat \<times> nat) list" where
  "pendingBackground w =
     concat (map (\<lambda>k. map (Pair k) (awaiting (workers (left_call (background w ! k)))))
               [0..<length (background w)])"

definition completeLeftover :: "Collaborators \<Rightarrow> nat \<times> nat \<Rightarrow> World \<Rightarrow> World" where
  "completeLeftover env kj w =
     (let l = background w ! fst kj;
          st = resume (left_items l) (fetchMapper env (left_manager l)) (snd kj)
                 (reshare (left_call l) w);
          w' = shared st
      in w'\<lparr>background := (background w')[fst kj := l\<lparr>left_call := reshare st ()\<rparr>]\<rparr>)"

text \<open>
  While the job waits for an operation, operations of the background complete: those the
  interleaving picks, one after the other, each among the ones pending at that moment
  (modulo their number); none when nothing is pending. \<open>meanwhile\<close> takes the next entry
  of the interleaving; when the interleaving has run out, nothing completes in the
  background.
\<close>

fun completions :: "Collaborators \<Rightarrow> nat list \<Rightarrow> World \<Rightarrow> World" where
  "completions env [] w = w"
| "completions env (c # cs) w =
     (let pending = pendingBackground w
      in if pending = [] then w
         else completions env cs (completeLeftover env (pending ! (c mod length pending)) w))"

definition meanwhile :: "Collaborators \<Rightarrow> World \<Rightarrow> World" where
  "meanwhile env w =
     (case interleaving w of
        [] \<Rightarrow> w
      | picks # rest \<Rightarrow> completions env picks (w\<lparr>interleaving := rest\<rparr>))"

text \<open>
  A mapper of the job: before one of its operations completes, the background has had its
  turn. And what a call leaves behind when its caller is resumed: the state the caller
  runs on with, in which the call is added to the background when workers of it are still
  waiting.
\<close>

definition foreground ::
  "Collaborators \<Rightarrow> ('a, 'p, 'r, World) mapper \<Rightarrow> ('a, 'p, 'r, World) mapper" where
  "foreground env m = m\<lparr>settle := (\<lambda>p w. settle m p (meanwhile env w))\<rparr>"

definition leaveBehind ::
  "string list \<Rightarrow> CredentialsManager \<Rightarrow> (fetching, GmailMessageContent, World) exec \<Rightarrow> World" where
  "leaveBehind items cm st =
     (let w = shared st
      in if awaiting (workers st) = [] then w
         else w\<lparr>background := background w
                  @ [\<lparr>left_items = items, left_manager = cm, left_call = reshare st ()\<rparr>]\<rparr>)"

text \<open>
  \<open>fetchNewsletterEmails\<close>. The request for the list is sent with the credentials current
  at the call; the background has its turn until the response is there.
\<close>

definition fetchNewsletterEmails ::
  "Collaborators \<Rightarrow> CredentialsManager \<Rightarrow> Newsletter \<Rightarrow> NewsletterProcessingOptions \<Rightarrow> Date
     \<Rightarrow> nat list \<Rightarrow> World \<Rightarrow> (thrown + GmailMessageContent option list) \<times> World" where
  "fetchNewsletterEmails env cm newsletter options startDate sched w =
     (let afterUnixSeconds =
            map_option (\<lambda>t. t div 1000)
              (getTime (case lastRun newsletter of None \<Rightarrow> startDate | Some d \<Rightarrow> d));
          senders = (case selectedEmails newsletter of None \<Rightarrow> [] | Some xs \<Rightarrow> xs);
          response = gmailListMessageIds env (getCredentials cm w) senders afterUnixSeconds
                       (mathMax (Num 1) (mathMin (Num 50) (maxEmailsPerNewsletter options)));
          w0 = meanwhile env w
      in case response of
           Inl e \<Rightarrow> (Inl e, w0)
         | Inr listResult \<Rightarrow>
             (case updateIfRefreshed env cm (list_refreshedCredentials listResult) w0 of
                (Inl e, w1) \<Rightarrow> (Inl e, w1)
              | (Inr u, w1) \<Rightarrow>
                  (let (emails, st) =
                         mapWithConcurrency (messageIds listResult)
                           (mathMax (Num 1) (mathMin (Num 20) (gmailFetchConcurrency options)))
                           (foreground env (fetchMapper env cm)) sched w1
                   in (emails, leaveBehind (messageIds listResult) cm st))))"

text \<open>
  The extraction step in the pipeline, and the synthesis: neither reads or changes the
  state, and the background has its turn while each is awaited.
\<close>

definition extractNewsletterEmails ::
  "Collaborators \<Rightarrow> GmailMessageContent option list \<Rightarrow> nat list \<Rightarrow> World
     \<Rightarrow> (thrown + ExtractedEmail option list) \<times> World" where
  "extractNewsletterEmails env emails sched w =
     (fst (extractEmailsContent (extractorPost env) emails sched []), meanwhile env w)"

definition generateNewsletterPodcast ::
  "Collaborators \<Rightarrow> string \<Rightarrow> World \<Rightarrow> (thrown + PodcastResult) \<times> World" where
  "generateNewsletterPodcast env combinedText w =
     (createPodcastFromText env combinedText DEFAULT_PODCAST_OPTIONS, meanwhile env w)"

definition emailSnapshot :: "GmailMessageContent \<Rightarrow> EmailSnapshot" where
  "emailSnapshot e =
     \<lparr>snap_id = msg_id e, snap_threadId = threadId e, snap_snippet = snippet e,
      snap_internalDate = internalDate e, snap_headers = headers e\<rparr>"

text \<open>\<open>map\<close> passes over empty slots; \<open>emails.length\<close> counts them.\<close>

definition saveNewsletterHistory ::
  "Collaborators \<Rightarrow> string \<Rightarrow> GmailMessageContent option list \<Rightarrow> PodcastResult \<Rightarrow> World
     \<Rightarrow> (thrown + string) \<times> World" where
  "saveNewsletterHistory env newsletterId emails podcast w =
     (let w0 = meanwhile env w
      in case newsletterHistoryCreate env newsletterId (length emails) podcast
                (map emailSnapshot (List.map_filter id emails)) (database w0) of
           Inl e \<Rightarrow> (Inl e, w0)
         | Inr (history, db) \<Rightarrow> (Inr (history_id history), w0\<lparr>database := db\<rparr>))"

definition updateNewsletterSchedule ::
  "Collaborators \<Rightarrow> string \<Rightarrow> Date \<Rightarrow> Interval \<Rightarrow> World \<Rightarrow> (thrown + Date) \<times> World" where
  "updateNewsletterSchedule env newsletterId now cadence w =
     (let next = addInterval now cadence;
          w0 = meanwhile env w
      in case newsletterUpdate env newsletterId now next (database w0) of
           Inl e \<Rightarrow> (Inl e, w0)
         | Inr db \<Rightarrow> (Inr next, w0\<lparr>database := db\<rparr>))"

text \<open>\<open>toISOString\<close> throws a \<open>RangeError\<close> for an invalid date.\<close>

definition toISOString :: "Collaborators \<Rightarrow> Date \<Rightarrow> thrown + string" where
  "toISOString env d =
     (case d of InvalidDate \<Rightarrow> Inl (Error ''Invalid time value'') | TimeValue t \<Rightarrow> Inr (isoString env t))"

record NewsletterResult =
  result_newsletterId :: string
  result_fetchedEmailCount :: "nat option"
  result_historyId :: "string option"
  result_podcast :: "PodcastResult option"
  result_nextRun :: "string option"
  result_error :: "string option"

text \<open>The result built in the \<open>catch\<close> clause of \<open>processNewsletter\<close>.\<close>

definition failed :: "Newsletter \<Rightarrow> thrown \<Rightarrow> NewsletterResult" where
  "failed newsletter e =
     \<lparr>result_newsletterId = newsletter_id newsletter, result_fetchedEmailCount = None,
      result_historyId = None, result_podcast = None, result_nextRun = None,
      result_error = Some (case e of Error message \<Rightarrow> message | NonError v \<Rightarrow> ''Unknown error'')\<rparr>"

text \<open>
  The statements of the \<open>try\<close> block of \<open>processNewsletter\<close> before the schedule is
  updated: fetch, extract, compose, synthesize, save the history. An exception ends them.
  The two schedules are those of the fetch and of the extraction.
\<close>

definition beforeReschedule ::
  "Collaborators \<Rightarrow> CredentialsManager \<Rightarrow> Newsletter \<Rightarrow> NewsletterProcessingOptions \<Rightarrow> Date
     \<Rightarrow> nat list \<times> nat list \<Rightarrow> World
     \<Rightarrow> (thrown + GmailMessageContent option list \<times> PodcastResult \<times> string) \<times> World" where
  "beforeReschedule env cm newsletter options startDate scheds w =
     (case fetchNewsletterEmails env cm newsletter options startDate (fst scheds) w of
        (Inl e, w1) \<Rightarrow> (Inl e, w1)
      | (Inr emails, w1) \<Rightarrow>
          (case extractNewsletterEmails env emails (snd scheds) w1 of
             (Inl e, w2) \<Rightarrow> (Inl e, w2)
           | (Inr extractedEmails, w2) \<Rightarrow>
               (let combinedText = buildPodcastInput (List.map_filter id extractedEmails)
                in case generateNewsletterPodcast env combinedText w2 of
                     (Inl e, w3) \<Rightarrow> (Inl e, w3)
                   | (Inr podcast, w3) \<Rightarrow>
                       (case saveNewsletterHistory env (newsletter_id newsletter) emails podcast w3 of
                          (Inl e, w4) \<Rightarrow> (Inl e, w4)
                        | (Inr historyId, w4) \<Rightarrow> (Inr (emails, podcast, historyId), w4)))))"

definition processNewsletter ::
  "Collaborators \<Rightarrow> CredentialsManager \<Rightarrow> Newsletter \<Rightarrow> NewsletterProcessingOptions \<Rightarrow> Date \<Rightarrow> Date
     \<Rightarrow> nat list \<times> nat list \<Rightarrow> World \<Rightarrow> NewsletterResult \<times> World" where
  "processNewsletter env cm newsletter options startDate now scheds w =
     (case beforeReschedule env cm newsletter options startDate scheds w of
        (Inl e, w4) \<Rightarrow> (failed newsletter e, w4)
      | (Inr (emails, podcast, historyId), w4) \<Rightarrow>
          (case updateNewsletterSchedule env (newsletter_id newsletter) now (interval newsletter) w4 of
             (Inl e, w5) \<Rightarrow> (failed newsletter e, w5)
           | (Inr next, w5) \<Rightarrow>
               (case toISOString env next of
                  Inl e \<Rightarrow> (failed newsletter e, w5)
                | Inr isoText \<Rightarrow>
                    (\<lparr>result_newsletterId = newsletter_id newsletter,
                      result_fetchedEmailCount = Some (length emails),
                      result_historyId = Some historyId, result_podcast = Some podcast,
                      result_nextRun = Some isoText, result_error = None\<rparr>, w5))))"

section \<open>The job orchestrator\<close>

text \<open>
  The users as the query of \<open>createUsersPodcasts\<close> loads them: each with its accounts of
  the supported provider and its active newsletters due in the window.
\<close>

record LoadedUser =
  user_id :: string
  user_emailAccounts :: "EmailAccount list"
  user_newsletters :: "Newsletter list"

record UserResult =
  result_userId :: string
  result_emailAccountId :: "string option"
  result_newsletters :: "NewsletterResult list"
  result_userError :: "string option"

text \<open>
  \<open>getGmailCredentials\<close>: no credentials without a stored access token; \<open>decrypt\<close> may
  throw, on the access token first.
\<close>

definition getGmailCredentials ::
  "Collaborators \<Rightarrow> EmailAccount \<Rightarrow> thrown + GmailCredentials option" where
  "getGmailCredentials env emailAccount =
     (if \<not> truthy (stored_accessToken emailAccount) then Inr None
      else case decrypt env (nullish (stored_accessToken emailAccount) []) of
             Inl e \<Rightarrow> Inl e
           | Inr token \<Rightarrow>
               (if truthy (stored_refreshToken emailAccount)
                then (case decrypt env (nullish (stored_refreshToken emailAccount) []) of
                        Inl e \<Rightarrow> Inl e
                      | Inr refresh \<Rightarrow>
                          Inr (Some \<lparr>accessToken = token, refreshToken = Some refresh,
                                     expiresAt = stored_expiresAt emailAccount\<rparr>))
                else Inr (Some \<lparr>accessToken = token, refreshToken = None,
                                 expiresAt = stored_expiresAt emailAccount\<rparr>)))"

text \<open>
  The loop over the newsletters of one user. Each run of a newsletter has its own two
  schedules, given by the newsletter's identifier. A run starts when the one before it
  has returned, whatever that one has left in the background.
\<close>

fun processNewsletters ::
  "Collaborators \<Rightarrow> CredentialsManager \<Rightarrow> NewsletterProcessingOptions \<Rightarrow> Date \<Rightarrow> Date
     \<Rightarrow> (string \<Rightarrow> nat list \<times> nat list) \<Rightarrow> Newsletter list \<Rightarrow> World
     \<Rightarrow> NewsletterResult list \<times> World" where
  "processNewsletters env cm options startDate now scheds [] w = ([], w)"
| "processNewsletters env cm options startDate now scheds (newsletter # rest) w =
     (let (result, w1) = processNewsletter env cm newsletter options startDate now
                           (scheds (newsletter_id newsletter)) w;
          (others, w2) = processNewsletters env cm options startDate now scheds rest w1
      in (result # others, w2))"

text \<open>
  The body of the loop over the users, for one user. An exception of
  \<open>getGmailCredentials\<close> is not caught in the loop.
\<close>

definition processUser ::
  "Collaborators \<Rightarrow> NewsletterProcessingOptions \<Rightarrow> Date \<Rightarrow> Date
     \<Rightarrow> (string \<Rightarrow> nat list \<times> nat list) \<Rightarrow> LoadedUser \<Rightarrow> World \<Rightarrow> (thrown + UserResult) \<times> World" where
  "processUser env options startDate now scheds user w =
     (case user_emailAccounts user of
        [] \<Rightarrow>
          (Inr \<lparr>result_userId = user_id user, result_emailAccountId = None, result_newsletters = [],
                result_userError = Some ''No Gmail email account found for user''\<rparr>, w)
      | gmailAccount # otherAccounts \<Rightarrow>
          (case getGmailCredentials env gmailAccount of
             Inl e \<Rightarrow> (Inl e, w)
           | Inr None \<Rightarrow>
               (Inr \<lparr>result_userId = user_id user, result_emailAccountId = Some (account_id gmailAccount),
                     result_newsletters = [],
                     result_userError = Some ''No Gmail email account with accessToken found for user''\<rparr>, w)
           | Inr (Some creds) \<Rightarrow>
               (let (cm, w0) = createCredentialsUpdater (account_id gmailAccount) creds w;
                    (rs, w1) = processNewsletters env cm options startDate now scheds
                                 (user_newsletters user) w0
                in (Inr \<lparr>result_userId = user_id user,
                         result_emailAccountId = Some (account_id gmailAccount),
                         result_newsletters = rs, result_userError = None\<rparr>, w1))))"

text \<open>The loop over the users: an exception ends it, and the job with it.\<close>

fun processUsers ::
  "Collaborators \<Rightarrow> NewsletterProcessingOptions \<Rightarrow> Date \<Rightarrow> Date
     \<Rightarrow> (string \<Rightarrow> nat list \<times> nat list) \<Rightarrow> LoadedUser list \<Rightarrow> World
     \<Rightarrow> (thrown + UserResult list) \<times> World" where
  "processUsers env options startDate now scheds [] w = (Inr [], w)"
| "processUsers env options startDate now scheds (user # rest) w =
     (case processUser env options startDate now scheds user w of
        (Inl e, w1) \<Rightarrow> (Inl e, w1)
      | (Inr result, w1) \<Rightarrow>
          (case processUsers env options startDate now scheds rest w1 of
             (Inl e, w2) \<Rightarrow> (Inl e, w2)
           | (Inr others, w2) \<Rightarrow> (Inr (result # others), w2)))"

record Report =
  ranAt :: string
  userCount :: nat
  perUserResults :: "UserResult list"

text \<open>
  \<open>createUsersPodcasts\<close> from the loaded users on: \<open>now\<close> is the instant of the run, the
  options are those read from the request body. An exception is passed to the error
  handler of the server, and no report is sent.
\<close>

definition createUsersPodcasts ::
  "Collaborators \<Rightarrow> Date \<Rightarrow> NewsletterProcessingOptions \<Rightarrow> (string \<Rightarrow> nat list \<times> nat list)
     \<Rightarrow> LoadedUser list \<Rightarrow> World \<Rightarrow> (thrown + Report) \<times> World" where
  "createUsersPodcasts env now options scheds users w =
     (let start = startOfUtcDay now
      in case processUsers env options start now scheds users w of
           (Inl e, w') \<Rightarrow> (Inl e, w')
         | (Inr rs, w') \<Rightarrow>
             (case toISOString env now of
                Inl e \<Rightarrow> (Inl e, w')
              | Inr isoText \<Rightarrow>
                  (Inr \<lparr>ranAt = isoText, userCount = length users, perUserResults = rs\<rparr>, w')))"

text \<open>
  A newsletter whose run cannot fail, whatever the credentials and the state: the
  provider lists its messages and returns each of them, the synthesis, the encryption
  and the writes to the database succeed, the fetch concurrency is a number, and the next
  run is a valid date.
\<close>

definition dependable ::
  "Collaborators \<Rightarrow> NewsletterProcessingOptions \<Rightarrow> Date \<Rightarrow> Date \<Rightarrow> Newsletter \<Rightarrow> bool" where
  "dependable env options startDate now n \<longleftrightarrow>
     (\<forall>c. \<exists>listResult.
        gmailListMessageIds env c (case selectedEmails n of None \<Rightarrow> [] | Some xs \<Rightarrow> xs)
          (map_option (\<lambda>t. t div 1000) (getTime (case lastRun n of None \<Rightarrow> startDate | Some d \<Rightarrow> d)))
          (mathMax (Num 1) (mathMin (Num 50) (maxEmailsPerNewsletter options))) = Inr listResult
        \<and> (\<forall>ident\<in>set (messageIds listResult). \<forall>c'. \<exists>message refreshed.
              gmailGetMessageText env c' ident = Inr (message, refreshed)))
   \<and> (\<forall>combinedText. \<exists>podcast.
        createPodcastFromText env combinedText DEFAULT_PODCAST_OPTIONS = Inr podcast)
   \<and> (\<forall>token. \<exists>secret. encrypt env token = Inr secret)
   \<and> (\<forall>write db. writeFailure env write db = None)
   \<and> gmailFetchConcurrency options \<noteq> NaN
   \<and> addInterval now (interval n) \<noteq> InvalidDate"

section \<open>A sample run\<close>

text \<open>
  Collaborators for examples. For a newsletter with selected senders the provider lists
  three messages, for one without it lists one. No message has an HTML body; the text of
  a message tells the access token it was fetched with. Fetching the message \<open>failing\<close>
  fails, and the response for the message \<open>m3\<close> carries refreshed credentials. Synthesis
  and the database writes succeed.
\<close>

definition sampleMessage :: "string \<Rightarrow> string \<Rightarrow> GmailMessageContent" where
  "sampleMessage ident token =
     \<lparr>msg_id = ident, threadId = None, snippet = None, internalDate = None,
      headers = [''Subject'' \<mapsto> ''Weekly''], msg_text = ident @ '' fetched with '' @ token,
      html = None\<rparr>"

definition sampleCollaborators :: "string \<Rightarrow> Collaborators" where
  "sampleCollaborators failing =
     \<lparr>gmailListMessageIds = (\<lambda>c senders after n.
         Inr \<lparr>messageIds = (if senders = [] then [''m9''] else [''m1'', ''m2'', ''m3'']),
              list_refreshedCredentials = None\<rparr>),
      gmailGetMessageText = (\<lambda>c ident.
         if ident = failing then Inl (Error ''Gmail API error'')
         else Inr (sampleMessage ident (accessToken c),
                   if ident = ''m3''
                   then Some \<lparr>refreshed_accessToken = ''fresh'', refreshed_expiresAt = None\<rparr>
                   else None)),
      extractorPost = (\<lambda>rq. Inl (OtherFailure (NonError ''unreachable''))),
      createPodcastFromText = (\<lambda>t opts. Inr \<lparr>script = Some t, audioFilename = None\<rparr>),
      encrypt = (\<lambda>t. Inr t), decrypt = (\<lambda>t. Inr t),
      writeFailure = (\<lambda>write db. None),
      newHistoryId = (\<lambda>db. ''h1''),
      isoString = (\<lambda>t. ''2024-01-15T00:00:00.000Z'')\<rparr>"

definition sampleNewsletter :: Newsletter where
  "sampleNewsletter =
     \<lparr>newsletter_id = ''n1'', interval = BIWEEKLY, selectedEmails = Some [''news@example.com''],
      isActive = True, lastRun = Some (TimeValue 1702857600000), nextRun = TimeValue 1704067200000\<rparr>"

definition otherNewsletter :: "string \<Rightarrow> Newsletter" where
  "otherNewsletter ident = sampleNewsletter\<lparr>newsletter_id := ident, selectedEmails := None\<rparr>"

definition sampleAccount :: "string \<Rightarrow> EmailAccount" where
  "sampleAccount ident =
     \<lparr>account_id = ident, stored_accessToken = Some ''secret'', stored_refreshToken = None,
      stored_expiresAt = None\<rparr>"

definition sampleCredentials :: GmailCredentials where
  "sampleCredentials = \<lparr>accessToken = ''secret'', refreshToken = None, expiresAt = None\<rparr>"

text \<open>
  The state at the start of a job: no credentials manager yet, nothing in the background,
  and the given interleaving. And the state when the runs of the first user's newsletters
  start: the manager for the account \<open>acc\<close> has been created.
\<close>

definition jobWorld :: "nat list list \<Rightarrow> World" where
  "jobWorld turns =
     \<lparr>currentCredentials = (\<lambda>k. sampleCredentials),
      managers = 0,
      database = \<lparr>emailAccounts = [''acc'' \<mapsto> sampleAccount ''acc'', ''acc2'' \<mapsto> sampleAccount ''acc2''],
                  newsletters = [''n1'' \<mapsto> sampleNewsletter, ''n2'' \<mapsto> otherNewsletter ''n2'',
                                 ''n3'' \<mapsto> otherNewsletter ''n3''],
                  histories = []\<rparr>,
      background = [],
      interleaving = turns\<rparr>"

definition sampleManager :: CredentialsManager where
  "sampleManager = \<lparr>manager_ref = 0, manager_account = ''acc''\<rparr>"

definition sampleWorld :: "nat list list \<Rightarrow> World" where
  "sampleWorld turns = (jobWorld turns)\<lparr>managers := 1\<rparr>"



definition sampleOptions :: NewsletterProcessingOptions where
  "sampleOptions = \<lparr>maxEmailsPerNewsletter = Num 10, gmailFetchConcurrency = Num 8\<rparr>"
section \<open>Properties of the podcast input\<close>

lemma trimStart_nonspace: "\<not> isWhiteSpace c \<Longrightarrow> trimStart (c # s) = c # s"
  by (simp add: trimStart_def)

lemma trimEnd_nonspace: "\<not> isWhiteSpace c \<Longrightarrow> trimEnd (xs @ c # ys) = xs @ c # trimEnd ys"
  by (simp add: trimEnd_def dropWhile_append)

lemma trimEnd_spaces: "\<forall>c\<in>set w. isWhiteSpace c \<Longrightarrow> trimEnd w = []"
  by (simp add: trimEnd_def)

lemma trimStart_spaces: "\<forall>c\<in>set w. isWhiteSpace c \<Longrightarrow> trimStart w = []"
  by (simp add: trimStart_def)

lemma trimEnd_Nil: "trimEnd [] = []"
  by (simp add: trimEnd_def)

lemma trim_ends:
  "trim s = [] \<or> (\<not> isWhiteSpace (hd (trim s)) \<and> \<not> isWhiteSpace (last (trim s)))"
proof (cases "trim s = []")
  case True then show ?thesis by simp
next
  case False
  let ?t = "dropWhile isWhiteSpace s"
  let ?r = "dropWhile isWhiteSpace (rev ?t)"
  have r: "?r \<noteq> []" using False by (simp add: trim_def trimEnd_def trimStart_def)
  have t: "?t \<noteq> []" using r by (cases "?t") auto
  have 1: "\<not> isWhiteSpace (hd ?r)" using r by (rule hd_dropWhile)
  have 2: "\<not> isWhiteSpace (hd ?t)" using t by (rule hd_dropWhile)
  have "last (rev ?r) = hd ?r" using r by (simp add: last_rev)
  moreover have "hd (rev ?r) = hd ?t"
  proof -
    obtain us where "rev ?t = us @ ?r" 
      by (metis takeWhile_dropWhile_id)
    then have "?t = rev ?r @ rev us" by (metis rev_append rev_rev_ident)
    then show ?thesis using r by (metis hd_append2 rev_is_Nil_conv)
  qed
  ultimately show ?thesis using 1 2 by (simp add: trim_def trimEnd_def trimStart_def)
qed

lemma trim_append_spaces:
  assumes "\<forall>c\<in>set w. isWhiteSpace c"
  shows "trim (trim s @ w) = trim s"
proof (cases "trim s = []")
  case True
  then show ?thesis using assms by (simp add: trim_def trimStart_spaces trimEnd_Nil)
next
  case False
  then obtain c cs where cs: "trim s = c # cs" by (cases "trim s") auto
  obtain bs b where bs: "trim s = bs @ [b]" using False by (metis rev_exhaust)
  from trim_ends[of s] False have e: "\<not> isWhiteSpace (hd (trim s))" "\<not> isWhiteSpace (last (trim s))"
    by auto
  have c: "\<not> isWhiteSpace c" using e(1) cs by simp
  have b: "\<not> isWhiteSpace b" using e(2) bs by simp
  have "trimStart (trim s @ w) = trim s @ w" using c cs by (simp add: trimStart_def)
  moreover have "trimEnd (trim s @ w) = trim s" 
    using b bs assms trimEnd_nonspace[of b bs w] by (simp add: trimEnd_spaces)
  ultimately show ?thesis by (simp add: trim_def)
qed

lemma header_prefix:
  "prefix (''From: '' @ nullish (from_addr e) [] @ NL @ ''Subject: '' @ nullish (subject e) [] @ NL @ ''Date:'')
     (emailHeader e)"
proof -
  let ?a = "''From: '' @ nullish (from_addr e) [] @ NL @ ''Subject: '' @ nullish (subject e) [] @ NL @ ''Date''"
  let ?rest = "'' '' @ nullish (date e) []"
  have ws: "\<not> isWhiteSpace CHR '':''" "\<not> isWhiteSpace CHR ''F''" by (simp_all add: isWhiteSpace_def)
  have "emailHeader e = trimEnd (?a @ CHR '':'' # ?rest)"
    using ws by (simp add: emailHeader_def trim_def trimStart_def)
  also have "\<dots> = ?a @ CHR '':'' # trimEnd ?rest" using ws(1) by (rule trimEnd_nonspace)
  finally show ?thesis by (simp add: prefix_def)
qed

lemma renderEmail_prefix: "prefix (emailHeader e) (renderEmail e)"
proof -
  have hp: "prefix ''F'' (emailHeader e)"
    using header_prefix[of e] by (auto simp: prefix_def)
  then have ne: "emailHeader e \<noteq> []" by (auto simp: prefix_def)
  have tr: "emailHeader e = trim (''From: '' @ nullish (from_addr e) [] @ NL @
           ''Subject: '' @ nullish (subject e) [] @ NL @
           ''Date: '' @ nullish (date e) [])" (is "_ = trim ?s")
    by (simp add: emailHeader_def)
  from trim_ends[of ?s] ne tr have e: "\<not> isWhiteSpace (hd (emailHeader e))" "\<not> isWhiteSpace (last (emailHeader e))"
    by auto
  obtain c cs where cs: "emailHeader e = c # cs" using ne by (cases "emailHeader e") auto
  obtain bs b where bs: "emailHeader e = bs @ [b]" using ne by (metis rev_exhaust)
  have c: "\<not> isWhiteSpace c" using e(1) cs by simp
  have b: "\<not> isWhiteSpace b" using e(2) bs by simp
  have "trimStart (emailHeader e @ NL @ NL @ articlesText e) = emailHeader e @ NL @ NL @ articlesText e"
    using c cs by (simp add: trimStart_def)
  moreover have "trimEnd (bs @ b # (NL @ NL @ articlesText e)) = bs @ b # trimEnd (NL @ NL @ articlesText e)"
    using b by (rule trimEnd_nonspace)
  ultimately have "renderEmail e = emailHeader e @ trimEnd (NL @ NL @ articlesText e)"
    using bs by (simp add: renderEmail_def trim_def)
  then show ?thesis by (simp add: prefix_def)
qed

lemma emailHeader_nonempty: "emailHeader e \<noteq> []"
  using header_prefix[of e] by (auto simp: prefix_def)

lemma renderEmail_nonempty: "renderEmail e \<noteq> []"
  using renderEmail_prefix[of e] emailHeader_nonempty[of e] by (auto simp: prefix_def)

lemma filter_renderEmail: "filter (\<lambda>s. s \<noteq> []) (map renderEmail es) = map renderEmail es"
  by (induction es) (simp_all add: renderEmail_nonempty)

lemma renderEmail_bare:
  assumes "\<forall>a\<in>set (articles e). renderArticle a = None"
  shows "renderEmail e = emailHeader e"
proof -
  have "filter truthy (map renderArticle (articles e)) = []"
    using assms by (induction "articles e") (auto simp: filter_empty_conv)
  then have "articlesText e = []" by (simp add: articlesText_def)
  then have "renderEmail e = trim (emailHeader e @ NL @ NL)" by (simp add: renderEmail_def)
  moreover have "trim (trim s @ NL @ NL) = trim s" for s
    by (rule trim_append_spaces) (simp add: isWhiteSpace_def)
  ultimately show ?thesis by (simp add: emailHeader_def)
qed

text \<open>
  Claim C10. In \<open>buildPodcastInput\<close> every email contributes a block: the trimmed
  header starts with the labels \<open>From:\<close>, \<open>Subject:\<close> and \<open>Date:\<close> around the (possibly
  absent) header fields, so it is never empty; the rendered block of an email starts with its
  header and is never empty, so the final \<open>filter(Boolean)\<close> drops no email and the result
  is the join of all rendered blocks; an email none of whose articles renders appears as
  its bare header.
\<close>

theorem buildPodcastInput_keeps_every_email:
  "prefix (''From: '' @ nullish (from_addr email) [] @ NL @
           ''Subject: '' @ nullish (subject email) [] @ NL @ ''Date:'') (emailHeader email)
   \<and> emailHeader email \<noteq> []
   \<and> prefix (emailHeader email) (renderEmail email)
   \<and> renderEmail email \<noteq> []
   \<and> buildPodcastInput extractedEmails = join emailSeparator (map renderEmail extractedEmails)
   \<and> ((\<forall>a\<in>set (articles email). renderArticle a = None) \<longrightarrow> renderEmail email = emailHeader email)"
  using header_prefix emailHeader_nonempty renderEmail_prefix renderEmail_nonempty renderEmail_bare
  by (simp add: buildPodcastInput_def filter_renderEmail)

lemma truthy_nullish: "truthy x \<Longrightarrow> nullish x [] \<noteq> []"
  by (cases x) auto

lemma renderArticle_nonempty: "renderArticle a = Some t \<Longrightarrow> t \<noteq> []"
  using truthy_nullish[of "orElse (fetched_content a) (Some (art_text a))"]
  by (auto simp: renderArticle_def Let_def split: if_splits)

lemma map_filter_truthy:
  "map (\<lambda>t. nullish t []) (filter truthy (map renderArticle as)) = List.map_filter renderArticle as"
proof (induction as)
  case Nil show ?case by (simp add: map_filter_simps)
next
  case (Cons a as)
  show ?case
  proof (cases "renderArticle a")
    case None then show ?thesis using Cons by (simp add: map_filter_simps)
  next
    case (Some t)
    then have "t \<noteq> []" by (rule renderArticle_nonempty)
    then show ?thesis using Some Cons by (simp add: map_filter_simps)
  qed
qed

lemma articlesText_map_filter:
  "articlesText email = join (NL @ NL @ ''---'' @ NL @ NL) (List.map_filter renderArticle (articles email))"
  by (simp add: articlesText_def articleSeparator_def map_filter_truthy)

lemma renderArticle_fetched:
  assumes "fetched_content a = Some c" and "c \<noteq> []"
  shows "renderArticle a =
           (case orElse (fetched_title a) (title a) of
              None \<Rightarrow> Some c
            | Some t \<Rightarrow> if t = [] then Some c else Some (''### '' @ t @ NL @ NL @ c))"
  using assms by (simp add: renderArticle_def orElse_def Let_def split: option.splits)

lemma renderArticle_none:
  assumes "\<not> truthy (fetched_content a)" and "art_text a = []"
  shows "renderArticle a = None"
  using assms by (simp add: renderArticle_def orElse_def Let_def)

lemma map_filter_drop_none:
  "f a = None \<Longrightarrow> List.map_filter f (xs @ a # ys) = List.map_filter f (xs @ ys)"
  by (simp add: List.map_filter_def)

text \<open>
  Claim C8. An article with (truthy) \<open>fetched_content\<close> is rendered from it, whatever its
  original text, under the heading \<open>fetched_title\<close>, else \<open>title\<close>, else none; an article
  with neither \<open>fetched_content\<close> nor text renders to \<open>null\<close> and adds nothing to the
  articles text of its email; the rendered articles of an email are joined by a line
  \<open>---\<close> between blank lines, and the emails by a line \<open>===\<close> between blank lines.
\<close>

theorem buildPodcastInput_article_rendering:
  "(fetched_content a = Some c \<and> c \<noteq> [] \<and> fetched_title a = Some t \<and> t \<noteq> []
      \<longrightarrow> renderArticle a = Some (''### '' @ t @ NL @ NL @ c))
   \<and> (fetched_content a = Some c \<and> c \<noteq> [] \<and> \<not> truthy (fetched_title a) \<and> title a = Some t \<and> t \<noteq> []
      \<longrightarrow> renderArticle a = Some (''### '' @ t @ NL @ NL @ c))
   \<and> (fetched_content a = Some c \<and> c \<noteq> [] \<and> \<not> truthy (fetched_title a) \<and> \<not> truthy (title a)
      \<longrightarrow> renderArticle a = Some c)
   \<and> (\<not> truthy (fetched_content a) \<and> art_text a = []
      \<longrightarrow> renderArticle a = None
          \<and> articlesText (email\<lparr>articles := xs @ a # ys\<rparr>) = articlesText (email\<lparr>articles := xs @ ys\<rparr>))
   \<and> articlesText email =
        join (NL @ NL @ ''---'' @ NL @ NL) (List.map_filter renderArticle (articles email))
   \<and> buildPodcastInput extractedEmails =
        join (NL @ NL @ ''==='' @ NL @ NL)
          (map (\<lambda>e. trim (emailHeader e @ NL @ NL @ articlesText e)) extractedEmails)"
proof -
  have 1: "fetched_content a = Some c \<and> c \<noteq> [] \<and> fetched_title a = Some t \<and> t \<noteq> []
      \<longrightarrow> renderArticle a = Some (''### '' @ t @ NL @ NL @ c)"
    by (simp add: renderArticle_fetched orElse_def)
  have 2: "fetched_content a = Some c \<and> c \<noteq> [] \<and> \<not> truthy (fetched_title a) \<and> title a = Some t \<and> t \<noteq> []
      \<longrightarrow> renderArticle a = Some (''### '' @ t @ NL @ NL @ c)"
    by (simp add: renderArticle_fetched orElse_def)
  have 3: "fetched_content a = Some c \<and> c \<noteq> [] \<and> \<not> truthy (fetched_title a) \<and> \<not> truthy (title a)
      \<longrightarrow> renderArticle a = Some c"
    by (cases "title a") (auto simp add: renderArticle_fetched orElse_def)
  have 4: "\<not> truthy (fetched_content a) \<and> art_text a = []
      \<longrightarrow> renderArticle a = None
          \<and> articlesText (email\<lparr>articles := xs @ a # ys\<rparr>) = articlesText (email\<lparr>articles := xs @ ys\<rparr>)"
    by (simp add: renderArticle_none articlesText_map_filter map_filter_drop_none)
  have 6: "buildPodcastInput extractedEmails =
        join (NL @ NL @ ''==='' @ NL @ NL)
          (map (\<lambda>e. trim (emailHeader e @ NL @ NL @ articlesText e)) extractedEmails)"
  proof -
    have "renderEmail = (\<lambda>e. trim (emailHeader e @ NL @ NL @ articlesText e))"
      by (rule ext) (simp add: renderEmail_def)
    then show ?thesis by (simp add: buildPodcastInput_def filter_renderEmail emailSeparator_def)
  qed
  show ?thesis using 1 2 3 4 6 articlesText_map_filter[of email] by blast
qed

theorem buildPodcastInput_article_rendering_witness:
  "renderArticle \<lparr>art_text = ''snippet'', link = None, link_text = None, title = Some ''Old'',
        fetched_content = Some ''full'', fetched_title = Some ''New'', fetched_url = None,
        fetch_error = None, fetch_method = Some httpx\<rparr> = Some (''### New'' @ NL @ NL @ ''full'')
   \<and> renderArticle \<lparr>art_text = ''snippet'', link = None, link_text = None, title = Some ''Old'',
        fetched_content = Some ''full'', fetched_title = None, fetched_url = None,
        fetch_error = None, fetch_method = None\<rparr> = Some (''### Old'' @ NL @ NL @ ''full'')
   \<and> renderArticle \<lparr>art_text = ''snippet'', link = None, link_text = None, title = None,
        fetched_content = Some ''full'', fetched_title = None, fetched_url = None,
        fetch_error = None, fetch_method = None\<rparr> = Some ''full''
   \<and> renderArticle \<lparr>art_text = [], link = None, link_text = None, title = Some ''Old'',
        fetched_content = None, fetched_title = None, fetched_url = None,
        fetch_error = None, fetch_method = None\<rparr> = None"
  using buildPodcastInput_article_rendering [of "\<lparr>art_text = ''snippet'', link = None, link_text = None, title = Some ''Old'',
        fetched_content = Some ''full'', fetched_title = Some ''New'', fetched_url = None,
        fetch_error = None, fetch_method = Some httpx\<rparr>" "''full''" "''New''"]
    buildPodcastInput_article_rendering [of "\<lparr>art_text = ''snippet'', link = None, link_text = None, title = Some ''Old'',
        fetched_content = Some ''full'', fetched_title = None, fetched_url = None,
        fetch_error = None, fetch_method = None\<rparr>" "''full''" "''Old''"]
    buildPodcastInput_article_rendering [of "\<lparr>art_text = ''snippet'', link = None, link_text = None, title = None,
        fetched_content = Some ''full'', fetched_title = None, fetched_url = None,
        fetch_error = None, fetch_method = None\<rparr>" "''full''"]
    buildPodcastInput_article_rendering [of "\<lparr>art_text = [], link = None, link_text = None, title = Some ''Old'',
        fetched_content = None, fetched_title = None, fetched_url = None,
        fetch_error = None, fetch_method = None\<rparr>"]
  by simp

theorem buildPodcastInput_keeps_every_email_witness:
  "renderEmail \<lparr>subject = None, from_addr = None, date = None, articles = []\<rparr>
       = emailHeader \<lparr>subject = None, from_addr = None, date = None, articles = []\<rparr>
   \<and> emailHeader \<lparr>subject = None, from_addr = None, date = None, articles = []\<rparr> \<noteq> []"
  using buildPodcastInput_keeps_every_email [of "\<lparr>subject = None, from_addr = None, date = None, articles = []\<rparr>"]
  by simp

lemma emailHeader_all_absent: "emailHeader \<lparr>subject = None, from_addr = None, date = None, articles = []\<rparr> = ''From: '' @ NL @ ''Subject: '' @ NL @ ''Date:''"
  by (simp add: emailHeader_def trim_def trimStart_def trimEnd_def isWhiteSpace_def)
section \<open>Properties of the schedule calculator\<close>

lemma div_succ:
  fixes a n :: int
  assumes "1 < n"
  shows "(a + 1) div n = a div n + (if (a + 1) mod n = 0 then 1 else 0)"
proof -
  define q where "q = a div n"
  define r where "r = a mod n"
  have a: "a = n * q + r" by (simp add: q_def r_def)
  have r: "0 \<le> r" "r < n" using assms by (simp_all add: r_def)
  show ?thesis
  proof (cases "r = n - 1")
    case True
    then have "a + 1 = n * (q + 1) + 0" using a by (simp add: algebra_simps)
    then have "(a + 1) div n = q + 1 \<and> (a + 1) mod n = 0" using assms
      by (simp add: int_div_pos_eq int_mod_pos_eq)
    then show ?thesis by (simp add: q_def)
  next
    case False
    then have 1: "0 \<le> r + 1" "r + 1 < n" using r by auto
    have "a + 1 = n * q + (r + 1)" using a by simp
    then have d: "(a + 1) div n = q" and m: "(a + 1) mod n = r + 1"
      using 1 by (simp_all add: int_div_pos_eq int_mod_pos_eq)
    then show ?thesis using r by (simp add: q_def)
  qed
qed


lemma DayFromYear_step: "DayFromYear (y + 1) = DayFromYear y + DaysInYear y"
proof -
  have 4: "(y + 1 - 1969) div 4 = (y - 1969) div 4 + (if y mod 4 = 0 then 1 else 0)"
    using div_succ[of 4 "y - 1969"] mod_mult_self2[of y 4 "-492"] by (simp add: algebra_simps)
  have 100: "(y + 1 - 1901) div 100 = (y - 1901) div 100 + (if y mod 100 = 0 then 1 else 0)"
    using div_succ[of 100 "y - 1901"] mod_mult_self2[of y 100 "-19"] by (simp add: algebra_simps)
  have 400: "(y + 1 - 1601) div 400 = (y - 1601) div 400 + (if y mod 400 = 0 then 1 else 0)"
    using div_succ[of 400 "y - 1601"] mod_mult_self2[of y 400 "-4"] by (simp add: algebra_simps)
  have a: "y mod 400 = 0 \<Longrightarrow> y mod 100 = 0"
    using mod_mod_cancel[of 100 400 y] by simp
  have b: "y mod 100 = 0 \<Longrightarrow> y mod 4 = 0"
    using mod_mod_cancel[of 4 100 y] by simp
  show ?thesis unfolding DayFromYear_def DaysInYear_def 4 100 400 using a b by auto
qed

lemma div_bounds:
  fixes a n :: int
  assumes "0 < n"
  shows "n * (a div n) \<le> a" and "a < n * (a div n) + n"
proof -
  have "a = n * (a div n) + a mod n" by simp
  moreover have "0 \<le> a mod n" "a mod n < n" using assms by simp_all
  ultimately show "n * (a div n) \<le> a" and "a < n * (a div n) + n" by linarith+
qed

lemma InLeapYear_cases: "InLeapYear t = 0 \<or> InLeapYear t = 1"
  by (simp add: InLeapYear_def)

lemma MonthFromTime_range: "0 \<le> MonthFromTime t \<and> MonthFromTime t \<le> 11"
  by (simp add: MonthFromTime_def Let_def)

lemma date_decomp:
  "monthStart (YearFromTime t) (MonthFromTime t) + DateFromTime t - 1 = Day t"
  by (simp add: monthStart_def DateFromTime_def DayWithinYear_def InLeapYear_def)

lemma DayFromYear_upper:
  "400 * DayFromYear y \<le> 146097 * (y - 1970) + 589"
proof -
  define a where "a = (y - 1969) div 4"
  define b where "b = (y - 1901) div 100"
  define c where "c = (y - 1601) div 400"
  have "4 * a \<le> y - 1969" unfolding a_def by (rule div_bounds) simp
  then have 1: "400 * a \<le> 100 * (y - 1969)" by simp
  have "y - 1901 < 100 * b + 100" unfolding b_def by (rule div_bounds) simp
  then have 2: "4 * (y - 2000) \<le> 400 * b" by simp
  have 3: "400 * c \<le> y - 1601" unfolding c_def by (rule div_bounds) simp
  have "DayFromYear y = 365 * (y - 1970) + a - b + c"
    by (simp add: DayFromYear_def a_def b_def c_def)
  then show ?thesis using 1 2 3 by simp
qed

lemma DayFromYear_lower:
  "146097 * (y - 1970) - 607 \<le> 400 * DayFromYear y"
proof -
  define a where "a = (y - 1969) div 4"
  define b where "b = (y - 1901) div 100"
  define c where "c = (y - 1601) div 400"
  have "y - 1969 < 4 * a + 4" unfolding a_def by (rule div_bounds) simp
  then have 1: "100 * (y - 1972) \<le> 400 * a" by simp
  have "100 * b \<le> y - 1901" unfolding b_def by (rule div_bounds) simp
  then have 2: "400 * b \<le> 4 * (y - 1901)" by simp
  have "y - 1601 < 400 * c + 400" unfolding c_def by (rule div_bounds) simp
  then have 3: "y - 2000 \<le> 400 * c" by simp
  have "DayFromYear y = 365 * (y - 1970) + a - b + c"
    by (simp add: DayFromYear_def a_def b_def c_def)
  then show ?thesis using 1 2 3 by simp
qed

lemma YearFromDay_bounds:
  "DayFromYear (YearFromDay d) \<le> d \<and> d < DayFromYear (YearFromDay d + 1)"
proof -
  define y where "y = 1970 + (d * 400) div 146097"
  have u: "146097 * (y - 1970) \<le> d * 400" "d * 400 < 146097 * (y - 1970) + 146097"
    unfolding y_def by (simp_all add: div_bounds)
  have "400 * DayFromYear (y - 1) \<le> 400 * d"
    using DayFromYear_upper[of "y - 1"] u(1) by simp
  then have lo: "DayFromYear (y - 1) \<le> d" by simp
  have "400 * d < 400 * DayFromYear (y + 1 + 1)"
    using DayFromYear_lower[of "y + 1 + 1"] u(2) by simp
  then have hi: "d < DayFromYear (y + 1 + 1)" by simp
  have s: "y - 1 + 1 = y" by simp
  show ?thesis
    unfolding YearFromDay_def Let_def y_def[symmetric]
    using lo hi by (simp add: s)
qed

lemma DayFromYear_mono: "y \<le> y' \<Longrightarrow> DayFromYear y \<le> DayFromYear y'"
proof (induction y' rule: int_ge_induct)
  case base show ?case by simp
next
  case (step i)
  have "0 \<le> DaysInYear i" by (simp add: DaysInYear_def)
  then show ?case using step DayFromYear_step[of i] by linarith
qed

lemma YearFromDay_unique:
  assumes "DayFromYear y \<le> d" and "d < DayFromYear (y + 1)"
  shows "YearFromDay d = y"
proof (rule ccontr)
  assume ne: "YearFromDay d \<noteq> y"
  let ?Y = "YearFromDay d"
  from YearFromDay_bounds[of d] have b: "DayFromYear ?Y \<le> d" "d < DayFromYear (?Y + 1)" by auto
  show False
  proof (cases "?Y < y")
    case True
    then have "DayFromYear (?Y + 1) \<le> DayFromYear y" by (intro DayFromYear_mono) simp
    then show False using b assms by linarith
  next
    case False
    then have "y + 1 \<le> ?Y" using ne by simp
    then have "DayFromYear (y + 1) \<le> DayFromYear ?Y" by (rule DayFromYear_mono)
    then show False using b assms by linarith
  qed
qed

lemma msPerDay_pos: "0 < msPerDay" by (simp add: msPerDay_def)

lemma Day_MakeDate:
  assumes "0 \<le> tod" "tod < msPerDay"
  shows "Day (MakeDate n tod) = n" and "TimeWithinDay (MakeDate n tod) = tod"
  using assms
  by (simp_all add: Day_def TimeWithinDay_def MakeDate_def int_div_pos_eq[of _ msPerDay n tod]
      int_mod_pos_eq[of _ msPerDay n tod] mult.commute)

lemma time_decomp: "MakeDate (Day t) (TimeWithinDay t) = t"
  by (simp add: MakeDate_def Day_def TimeWithinDay_def)

lemma TimeWithinDay_range: "0 \<le> TimeWithinDay t \<and> TimeWithinDay t < msPerDay"
  using msPerDay_pos by (simp add: TimeWithinDay_def)

lemma MakeDate_shift: "MakeDate (Day t + k) (TimeWithinDay t) = t + k * msPerDay"
proof -
  have "MakeDate (Day t + k) (TimeWithinDay t) = MakeDate (Day t) (TimeWithinDay t) + k * msPerDay"
    by (simp add: MakeDate_def algebra_simps)
  then show ?thesis by (simp add: time_decomp)
qed

lemma month_cases:
  fixes m :: int
  assumes "0 \<le> m" "m \<le> 11"
  obtains "m = 0" | "m = 1" | "m = 2" | "m = 3" | "m = 4" | "m = 5" | "m = 6" | "m = 7"
    | "m = 8" | "m = 9" | "m = 10" | "m = 11"
proof -
  have "m = 0 \<or> m = 1 \<or> m = 2 \<or> m = 3 \<or> m = 4 \<or> m = 5 \<or> m = 6 \<or> m = 7
      \<or> m = 8 \<or> m = 9 \<or> m = 10 \<or> m = 11"
    using assms by arith
  then show thesis using that by blast
qed

lemma MakeDay_same_month:
  assumes "0 \<le> m" "m \<le> 11"
  shows "MakeDay y m dt = monthStart y m + dt - 1"
proof -
  have "m div 12 = 0" "m mod 12 = m" using assms by simp_all
  then show ?thesis by (simp add: MakeDay_def)
qed

lemma monthStart_next:
  assumes "0 \<le> m" "m \<le> 11"
  shows "monthStart (fst (nextMonth (y, m))) (snd (nextMonth (y, m))) = monthStart y m + DaysInMonth y m"
  using assms
proof (cases m rule: month_cases)
  case 12
  have "DaysInYear y = 365 \<or> DaysInYear y = 366" by (simp add: DaysInYear_def)
  then show ?thesis using 12 DayFromYear_step[of y]
    by (auto simp add: monthStart_def monthOffset_def DaysInMonth_def)
qed (simp_all add: monthStart_def monthOffset_def DaysInMonth_def)

lemma MakeDay_next_month:
  assumes "0 \<le> m" "m \<le> 11"
  shows "MakeDay y (m + 1) dt = monthStart y m + DaysInMonth y m + dt - 1"
proof -
  have "(y + (m + 1) div 12, (m + 1) mod 12) = nextMonth (y, m)"
    using assms by (cases m rule: month_cases) simp_all
  then have "MakeDay y (m + 1) dt = monthStart (fst (nextMonth (y, m))) (snd (nextMonth (y, m))) + dt - 1"
    by (simp add: MakeDay_def Let_def del: nextMonth.simps) (metis fst_conv snd_conv)
  then show ?thesis using monthStart_next[OF assms] by simp
qed

lemma DayWithinYear_range:
  "0 \<le> DayWithinYear t \<and> DayWithinYear t < DaysInYear (YearFromTime t)"
  using YearFromDay_bounds[of "Day t"] DayFromYear_step[of "YearFromTime t"]
  by (simp add: DayWithinYear_def YearFromTime_def)

lemma DaysInYear_leap: "DaysInYear y = 365 + (if DaysInYear y = 366 then 1 else 0)"
  by (simp add: DaysInYear_def)

lemma DateFromTime_range:
  "1 \<le> DateFromTime t \<and> DateFromTime t \<le> DaysInMonth (YearFromTime t) (MonthFromTime t)"
proof -
  define d where "d = DayWithinYear t"
  define l where "l = InLeapYear t"
  have l: "l = 0 \<or> l = 1" by (simp add: l_def InLeapYear_def)
  have ly: "(DaysInYear (YearFromTime t) = 366) = (l = 1)" by (simp add: l_def InLeapYear_def)
  have d: "0 \<le> d" "d < 365 + l"
    using DayWithinYear_range[of t] DaysInYear_leap[of "YearFromTime t"]
    by (simp_all add: d_def l_def InLeapYear_def)
  have m: "MonthFromTime t = (if d < 31 then 0
         else if d < 59 + l then 1
         else if d < 90 + l then 2
         else if d < 120 + l then 3
         else if d < 151 + l then 4
         else if d < 181 + l then 5
         else if d < 212 + l then 6
         else if d < 243 + l then 7
         else if d < 273 + l then 8
         else if d < 304 + l then 9
         else if d < 334 + l then 10
         else 11)"
    by (simp add: MonthFromTime_def Let_def d_def l_def)
  have D: "DateFromTime t = d - monthOffset (MonthFromTime t) l + 1"
    by (simp add: DateFromTime_def d_def l_def)
  have mr: "0 \<le> MonthFromTime t" "MonthFromTime t \<le> 11"
    using MonthFromTime_range[of t] by simp_all
  from mr show ?thesis
    by (cases "MonthFromTime t" rule: month_cases)
       (use m d l in \<open>auto simp: D ly DaysInMonth_def monthOffset_def split: if_splits\<close>)
qed

lemma civil_roundtrip:
  assumes m: "0 \<le> m" "m \<le> 11" and d: "1 \<le> d" "d \<le> DaysInMonth y m"
    and t: "Day t = monthStart y m + d - 1"
  shows "civil t = (y, m, d)"
proof -
  define l :: int where "l = (if DaysInYear y = 366 then 1 else 0)"
  have l: "l = 0 \<or> l = 1" by (simp add: l_def)
  have ly: "(DaysInYear y = 366) = (l = 1)" by (simp add: l_def)
  have dy: "DaysInYear y = 365 + l" using DaysInYear_leap[of y] by (simp add: l_def)
  define w where "w = monthOffset m l + d - 1"
  have dt: "Day t = DayFromYear y + w" using t by (simp add: monthStart_def l_def w_def)
  have w: "0 \<le> w \<and> w < 365 + l"
    using m by (cases m rule: month_cases)
      (use d l in \<open>auto simp: w_def ly DaysInMonth_def monthOffset_def split: if_splits\<close>)
  have Y: "YearFromTime t = y"
    unfolding YearFromTime_def
    by (rule YearFromDay_unique) (use w dt dy DayFromYear_step[of y] in simp_all)
  have L: "InLeapYear t = l" by (simp add: InLeapYear_def Y l_def)
  have W: "DayWithinYear t = w" by (simp add: DayWithinYear_def Y dt)
  have M: "MonthFromTime t = m"
    unfolding MonthFromTime_def Let_def L W
    using m by (cases m rule: month_cases)
      (use d l in \<open>auto simp: w_def ly DaysInMonth_def monthOffset_def split: if_splits\<close>)
  have "DateFromTime t = d" by (simp add: DateFromTime_def M L W w_def)
  then show ?thesis by (simp add: civil_def Y M)
qed

lemma newDate_valid: "\<bar>t\<bar> \<le> maxTime \<Longrightarrow> newDate (getTime (TimeValue t)) = TimeValue t"
  by (simp add: TimeClip_def)

lemma setUTCDate_shift:
  "setUTCDate (TimeValue t) (Some (DateFromTime t + k)) = TimeClip (t + k * msPerDay)"
proof -
  have "MakeDay (YearFromTime t) (MonthFromTime t) (DateFromTime t + k) = Day t + k"
    using MonthFromTime_range[of t] date_decomp[of t] by (simp add: MakeDay_same_month)
  then show ?thesis by (simp add: MakeDate_shift)
qed

lemma setUTCMonth_next:
  "setUTCMonth (TimeValue t) (Some (MonthFromTime t + 1)) =
     TimeClip (t + DaysInMonth (YearFromTime t) (MonthFromTime t) * msPerDay)"
proof -
  have "MakeDay (YearFromTime t) (MonthFromTime t + 1) (DateFromTime t)
        = Day t + DaysInMonth (YearFromTime t) (MonthFromTime t)"
    using MonthFromTime_range[of t] date_decomp[of t] by (simp add: MakeDay_next_month)
  then show ?thesis by (simp add: MakeDate_shift)
qed

lemma Day_shift: "Day (t + k * msPerDay) = Day t + k"
  using Day_MakeDate(1)[of "TimeWithinDay t" "Day t + k"] TimeWithinDay_range[of t]
  by (simp add: MakeDate_shift)

lemma TimeWithinDay_shift: "TimeWithinDay (t + k * msPerDay) = TimeWithinDay t"
  by (simp add: TimeWithinDay_def)

lemma DaysInMonth_range: "28 \<le> DaysInMonth y m \<and> DaysInMonth y m \<le> 31"
  by (simp add: DaysInMonth_def)

lemma nextMonth_range:
  assumes "0 \<le> m" "m \<le> 11"
  shows "0 \<le> snd (nextMonth (y, m)) \<and> snd (nextMonth (y, m)) \<le> 11"
  using assms by simp

lemma civil_month_later:
  "civil (t + DaysInMonth (YearFromTime t) (MonthFromTime t) * msPerDay) = addCalendarMonth (civil t)"
proof -
  define Y where "Y = YearFromTime t"
  define M where "M = MonthFromTime t"
  define D where "D = DateFromTime t"
  define r where "r = t + DaysInMonth Y M * msPerDay"
  obtain y1 m1 where n1: "nextMonth (Y, M) = (y1, m1)" by (cases "nextMonth (Y, M)")
  obtain y2 m2 where n2: "nextMonth (y1, m1) = (y2, m2)" by (cases "nextMonth (y1, m1)")
  have M: "0 \<le> M" "M \<le> 11" using MonthFromTime_range[of t] by (simp_all add: M_def)
  have m1: "0 \<le> m1" "m1 \<le> 11" using nextMonth_range[OF M, of Y] n1 by simp_all
  have m2: "0 \<le> m2" "m2 \<le> 11" using nextMonth_range[OF m1, of y1] n2 by simp_all
  have D: "1 \<le> D" "D \<le> DaysInMonth Y M" using DateFromTime_range[of t] by (simp_all add: D_def Y_def M_def)
  have s1: "monthStart y1 m1 = monthStart Y M + DaysInMonth Y M"
    using monthStart_next[OF M, of Y] n1 by simp
  have s2: "monthStart y2 m2 = monthStart y1 m1 + DaysInMonth y1 m1"
    using monthStart_next[OF m1, of y1] n2 by simp
  have dr: "Day r = monthStart y1 m1 + D - 1"
    using date_decomp[of t] by (simp add: r_def Day_shift s1 Y_def M_def D_def)
  have "civil r = (if D \<le> DaysInMonth y1 m1 then (y1, m1, D) else (y2, m2, D - DaysInMonth y1 m1))"
  proof (cases "D \<le> DaysInMonth y1 m1")
    case True
    then show ?thesis using civil_roundtrip[OF m1 D(1) True dr] by simp
  next
    case False
    have a: "1 \<le> D - DaysInMonth y1 m1" using False by simp
    have b: "D - DaysInMonth y1 m1 \<le> DaysInMonth y2 m2"
      using D(2) DaysInMonth_range[of Y M] DaysInMonth_range[of y1 m1] DaysInMonth_range[of y2 m2]
      by linarith
    have c: "Day r = monthStart y2 m2 + (D - DaysInMonth y1 m1) - 1" using dr s2 by simp
    show ?thesis using civil_roundtrip[OF m2 a b c] False by simp
  qed
  moreover have "addCalendarMonth (civil t) =
      (if D \<le> DaysInMonth y1 m1 then (y1, m1, D) else (y2, m2, D - DaysInMonth y1 m1))"
    using n1 n2 by (simp add: civil_def Y_def[symmetric] M_def[symmetric] D_def[symmetric] del: nextMonth.simps)
  ultimately show ?thesis by (simp add: r_def Y_def M_def)
qed

text \<open>
  Claim C6, amended. For a valid date \<open>from\<close> (a time value \<open>t\<close> within the range of
  \<open>Date\<close>), \<open>addInterval\<close> returns \<open>t\<close> plus 7 days for \<open>WEEKLY\<close> and plus 14 days
  for \<open>BIWEEKLY\<close>; for \<open>MONTHLY\<close> it returns \<open>t\<close> plus the length of the month \<open>t\<close>
  lies in, which is the calendar's "one month later" at the same time of day: the same
  day of the following month, overflowing into the month after it where the following
  month is shorter. Each result is clipped: it is that instant when the instant lies
  within the range of \<open>Date\<close> and the invalid date otherwise. Any other cadence returns
  \<open>from\<close> unchanged.
\<close>

theorem addInterval_offsets:
  assumes "\<bar>t\<bar> \<le> maxTime"
  shows "addInterval (TimeValue t) WEEKLY
           = (if \<bar>t + 7 * msPerDay\<bar> \<le> maxTime then TimeValue (t + 7 * msPerDay) else InvalidDate)
       \<and> addInterval (TimeValue t) BIWEEKLY
           = (if \<bar>t + 14 * msPerDay\<bar> \<le> maxTime then TimeValue (t + 14 * msPerDay) else InvalidDate)
       \<and> addInterval (TimeValue t) MONTHLY
           = (if \<bar>t + DaysInMonth (YearFromTime t) (MonthFromTime t) * msPerDay\<bar> \<le> maxTime
              then TimeValue (t + DaysInMonth (YearFromTime t) (MonthFromTime t) * msPerDay)
              else InvalidDate)
       \<and> civil (t + DaysInMonth (YearFromTime t) (MonthFromTime t) * msPerDay) = addCalendarMonth (civil t)
       \<and> TimeWithinDay (t + DaysInMonth (YearFromTime t) (MonthFromTime t) * msPerDay) = TimeWithinDay t
       \<and> addInterval (TimeValue t) (OtherInterval v) = TimeValue t"
proof -
  have c: "TimeClip x = (if \<bar>x\<bar> \<le> maxTime then TimeValue x else InvalidDate)" for x
    by (simp add: TimeClip_def)
  have n: "TimeClip t = TimeValue t" using assms by (simp add: TimeClip_def)
  have w: "addInterval (TimeValue t) WEEKLY = TimeClip (t + 7 * msPerDay)"
    using setUTCDate_shift[of t 7] by (simp add: n Let_def del: setUTCDate.simps)
  have b: "addInterval (TimeValue t) BIWEEKLY = TimeClip (t + 14 * msPerDay)"
    using setUTCDate_shift[of t 14] by (simp add: n Let_def del: setUTCDate.simps)
  have m: "addInterval (TimeValue t) MONTHLY
      = TimeClip (t + DaysInMonth (YearFromTime t) (MonthFromTime t) * msPerDay)"
    using setUTCMonth_next[of t] by (simp add: n Let_def del: setUTCMonth.simps)
  have o: "addInterval (TimeValue t) (OtherInterval v) = TimeValue t" by (simp add: n)
  show ?thesis
    unfolding w b m o c using civil_month_later[of t] by (simp add: TimeWithinDay_shift)
qed

text \<open>
  The claim as stated fails at the last instant a \<open>Date\<close> can hold (13 September
  275760): a week later is no \<open>Date\<close>, and \<open>addInterval\<close> returns the invalid date.
\<close>

theorem addInterval_weekly_counterexample:
  "addInterval (TimeValue 8640000000000000) WEEKLY \<noteq> TimeValue (8640000000000000 + 7 * 86400000)"
proof -
  have "addInterval (TimeValue 8640000000000000) WEEKLY
        = setUTCDate (TimeValue 8640000000000000) (Some (DateFromTime 8640000000000000 + 7))"
    by (simp add: TimeClip_def maxTime_def del: setUTCDate.simps)
  also have "\<dots> = TimeClip (8640000000000000 + 7 * msPerDay)"
    by (rule setUTCDate_shift)
  also have "\<dots> = InvalidDate"
    by (simp add: TimeClip_def maxTime_def msPerDay_def)
  finally show ?thesis by simp
qed

lemma civil_jan31: "civil 1706659200000 = (2024, 0, 31)"
  by code_simp

lemma days_jan: "DaysInMonth 2024 0 = 31"
  by code_simp

theorem addInterval_offsets_witness:
  "addInterval (TimeValue 1706659200000) WEEKLY = TimeValue 1707264000000
   \<and> addInterval (TimeValue 1706659200000) BIWEEKLY = TimeValue 1707868800000
   \<and> addInterval (TimeValue 1706659200000) MONTHLY = TimeValue 1709337600000
   \<and> civil 1709337600000 = (2024, 2, 2)
   \<and> addInterval (TimeValue 1706659200000) (OtherInterval ''DAILY'') = TimeValue 1706659200000"
proof -
  have y: "YearFromTime 1706659200000 = 2024" and m: "MonthFromTime 1706659200000 = 0"
    using civil_jan31 by (simp_all add: civil_def)
  have d: "DaysInMonth 2024 0 = 31" "DaysInMonth 2024 1 = 29" by (simp_all add: DaysInMonth_def DaysInYear_def)
  show ?thesis
    using addInterval_offsets [of 1706659200000 "''DAILY''"] civil_jan31
    by (simp add: y m d maxTime_def msPerDay_def TimeClip_def)
qed
section \<open>Properties of the bounded-concurrency executor\<close>

subsection \<open>The number of workers\<close>

lemma workerCount_Num:
  "workerCount (Num K) =
     (if \<lfloor>max 1 K\<rfloor> > 4294967295 then Inl (Error ''Invalid array length'')
      else Inr (nat \<lfloor>max 1 K\<rfloor>))"
proof -
  have "1 \<le> \<lfloor>max 1 K\<rfloor>" by (simp add: le_floor_iff)
  then show ?thesis by (simp add: workerCount_def ToLength_def Let_def min_def max_def)
qed

lemma workerCount_other:
  "workerCount NaN = Inr 0" "workerCount NegInfinity = Inr 1"
  "workerCount Infinity = Inl (Error ''Invalid array length'')"
  by (simp_all add: workerCount_def ToLength_def)



lemma workerCount_valid:
  "1 \<le> K \<Longrightarrow> K < 4294967296 \<Longrightarrow> workerCount (Num K) = Inr (nat \<lfloor>K\<rfloor>) \<and> 1 \<le> nat \<lfloor>K\<rfloor>"
proof -
  assume K: "1 \<le> K" "K < 4294967296"
  define k where "k = \<lfloor>K\<rfloor>"
  have "1 \<le> k" "k < 4294967296" using K by (simp_all add: k_def le_floor_iff floor_less_iff)
  moreover have "max 1 K = K" using K by (simp add: max_def)
  ultimately have "workerCount (Num K) = Inr (nat k) \<and> 1 \<le> nat k"
    by (simp add: workerCount_Num flip: k_def)
  then show ?thesis by (simp add: k_def)
qed


lemma workerCount_Inr:
  assumes "workerCount (Num K) = Inr n"
  shows "1 \<le> n" and "1 \<le> K \<Longrightarrow> real n \<le> K" and "n = nat \<lfloor>max 1 K\<rfloor>"
proof -
  define k where "k = \<lfloor>max 1 K\<rfloor>"
  have f: "1 \<le> k" by (simp add: k_def le_floor_iff)
  from assms show n: "n = nat \<lfloor>max 1 K\<rfloor>" by (simp add: workerCount_Num split: if_splits)
  then have nk: "n = nat k" by (simp add: k_def)
  then show "1 \<le> n" using f by linarith
  assume "1 \<le> K"
  then have "max 1 K = K" by (simp add: max_def)
  then have "real_of_int k \<le> K" by (simp add: k_def)
  moreover have "real n = real_of_int k" using nk f by simp
  ultimately show "real n \<le> K" by simp
qed

lemma workerCount_cases:
  obtains (range) "workerCount c = Inl (Error ''Invalid array length'')"
  | (none) "c = NaN" "workerCount c = Inr 0"
  | (some) n where "workerCount c = Inr n" "1 \<le> n"
proof (cases c)
  case (Num K)
  show ?thesis
  proof (cases "workerCount (Num K)")
    case (Inl e)
    then show ?thesis using range Num by (simp add: workerCount_Num split: if_splits)
  next
    case (Inr n)
    then show ?thesis using some[of n] workerCount_Inr(1)[OF Inr] Num by simp
  qed
next
  case Infinity then show ?thesis using range by (simp add: workerCount_other)
next
  case NegInfinity then show ?thesis using some[of 1] by (simp add: workerCount_other)
next
  case NaN then show ?thesis using none by (simp add: workerCount_other)
qed

subsection \<open>The states of a call\<close>

lemma workerLoop_cases:
  obtains (finished) "length items \<le> nextIndex st"
      "workerLoop items m st = (Returned, st\<lparr>nextIndex := nextIndex st + 1\<rparr>)"
  | (claimed) p s' where "nextIndex st < length items"
      "call m (items ! nextIndex st) (nextIndex st) (shared st) = (p, s')"
      "workerLoop items m st =
         (Awaiting (nextIndex st) p,
          st\<lparr>nextIndex := nextIndex st + 1, calls := calls st @ [nextIndex st], shared := s'\<rparr>)"
proof (cases "length items \<le> nextIndex st")
  case True
  then show ?thesis using finished by (simp add: workerLoop_def Let_def)
next
  case False
  obtain p s' where "call m (items ! nextIndex st) (nextIndex st) (shared st) = (p, s')"
    by (cases "call m (items ! nextIndex st) (nextIndex st) (shared st)")
  then show ?thesis using False claimed[of p s'] by (simp add: workerLoop_def Let_def)
qed

lemma resume_cases:
  assumes "w < length (workers st)" and "workers st ! w = Awaiting i p"
  obtains (failed) e s' where "settle m p (shared st) = (Inl e, s')"
      "resume items m w st =
         st\<lparr>shared := s', settled := settled st @ [i],
            workers := (workers st)[w := Rejected e], failures := failures st @ [e],
            rejection := (case rejection st of None \<Rightarrow> Some e | Some e0 \<Rightarrow> Some e0)\<rparr>"
  | (lastOne) r s' where "settle m p (shared st) = (Inr r, s')" "length items \<le> nextIndex st"
      "resume items m w st =
         st\<lparr>shared := s', settled := settled st @ [i], results := (results st)[i := Some r],
            fulfilled := fulfilled st @ [(i, r)],
            nextIndex := nextIndex st + 1, workers := (workers st)[w := Returned]\<rparr>"
  | (another) r s' q s'' where "settle m p (shared st) = (Inr r, s')" "nextIndex st < length items"
      "call m (items ! nextIndex st) (nextIndex st) s' = (q, s'')"
      "resume items m w st =
         st\<lparr>shared := s'', settled := settled st @ [i], results := (results st)[i := Some r],
            fulfilled := fulfilled st @ [(i, r)],
            nextIndex := nextIndex st + 1, calls := calls st @ [nextIndex st],
            workers := (workers st)[w := Awaiting (nextIndex st) q]\<rparr>"
proof -
  obtain out s' where o: "settle m p (shared st) = (out, s')" by (cases "settle m p (shared st)")
  show thesis
  proof (cases out)
    case (Inl e)
    then show thesis using assms o failed[of e s'] by (simp add: resume_def Let_def)
  next
    case (Inr r)
    let ?st2 = "st\<lparr>shared := s', settled := settled st @ [i], results := (results st)[i := Some r],
        fulfilled := fulfilled st @ [(i, r)]\<rparr>"
    show thesis
    proof (cases rule: workerLoop_cases[of items ?st2 m])
      case finished
      then show thesis using assms o Inr lastOne[of r s'] by (simp add: resume_def Let_def)
    next
      case (claimed q s'')
      then show thesis using assms o Inr another[of r s' q s''] by (simp add: resume_def Let_def)
    qed
  qed
qed

lemma inv_count_initial: "inv_count (initial items s)"
  by (simp add: inv_count_def initial_def)

lemma inv_count_spawn:
  "inv_count st \<Longrightarrow> inv_count (spawn n items m st) \<and>
     length (workers (spawn n items m st)) = length (workers st) + n"
proof (induction n arbitrary: st)
  case 0 then show ?case by simp
next
  case (Suc n)
  show ?case
  proof (cases rule: workerLoop_cases[of items st m])
    case finished
    have "inv_count (st\<lparr>nextIndex := nextIndex st + 1, workers := workers st @ [Returned]\<rparr>)"
      using Suc.prems by (simp add: inv_count_def)
    from Suc.IH[OF this] finished show ?thesis by simp
  next
    case (claimed p s')
    have "inv_count (st\<lparr>nextIndex := nextIndex st + 1, calls := calls st @ [nextIndex st],
        shared := s', workers := workers st @ [Awaiting (nextIndex st) p]\<rparr>)"
      using Suc.prems by (simp add: inv_count_def)
    from Suc.IH[OF this] claimed show ?thesis by simp
  qed
qed

lemma inv_count_resume:
  assumes "inv_count st" and "w \<in> set (awaiting (workers st))"
  shows "inv_count (resume items m w st) \<and> length (workers (resume items m w st)) = length (workers st)"
proof -
  from assms(2) have w: "w < length (workers st)" and a: "isAwaiting (workers st ! w)"
    by (simp_all add: awaiting_set)
  then obtain i p where ip: "workers st ! w = Awaiting i p" by (cases "workers st ! w") auto
  from w ip show ?thesis
  proof (cases rule: resume_cases[where m = m and items = items])
    case (failed e s')
    then show ?thesis
      using assms(1) a filter_update_count[OF w, of isAwaiting "Rejected e"]
      by (simp add: inv_count_def)
  next
    case (lastOne r s')
    then show ?thesis
      using assms(1) a filter_update_count[OF w, of isAwaiting Returned]
      by (simp add: inv_count_def)
  next
    case (another r s' q s'')
    then show ?thesis
      using assms(1) a filter_update_count[OF w, of isAwaiting "Awaiting (nextIndex st) q"]
      by (simp add: inv_count_def)
  qed
qed

lemma reach_count:
  "reach items m n s st \<Longrightarrow> inv_count st \<and> length (workers st) \<le> n"
proof (induction rule: reach.induct)
  case (starting j)
  then show ?case using inv_count_spawn[OF inv_count_initial[of items s], where n = j and items = items and m = m]
    by (simp add: initial_def)
next
  case (completion st w)
  then show ?case using inv_count_resume[where st = st and w = w and items = items and m = m] by simp
qed

text \<open>
  Claim C5. In every state a call of \<open>mapWithConcurrency\<close> with bound \<open>K \<ge> 1\<close> can
  reach, after any completions in any order and for any mapper and any number of items, at
  most \<open>K\<close> operations are in flight (called and not yet completed). The states are those
  of the workers that the call starts for \<open>K\<close>; the bound may be a fraction.
\<close>

theorem mapWithConcurrency_bounded_inflight:
  assumes "workerCount (Num K) = Inr n" and "reach items m n s st" and "1 \<le> K"
  shows "real (inflight st) \<le> K"
proof -
  from reach_count[OF assms(2)] have c: "inv_count st" and l: "length (workers st) \<le> n"
    by simp_all
  have "inflight st = length (filter isAwaiting (workers st))"
    using c by (simp add: inflight_def inv_count_def)
  also have "\<dots> \<le> length (workers st)" by simp
  finally have "inflight st \<le> n" using l by simp
  then have "real (inflight st) \<le> real n" by simp
  then show ?thesis using workerCount_Inr(2)[OF assms(1,3)] by simp
qed

lemma run_reach:
  "reach items m n s st \<Longrightarrow> length (workers st) = n \<Longrightarrow> reach items m n s (run items m sched st)"
proof (induction items m sched st rule: run.induct)
  case (1 items m sched st)
  show ?case
  proof (cases "awaiting (workers st) = []")
    case True
    then show ?thesis using "1.prems" by (simp add: run.simps)
  next
    case False
    let ?w = "pick sched (awaiting (workers st))"
    have w: "?w \<in> set (awaiting (workers st))" using False by (rule pick_in)
    have r: "reach items m n s (resume items m ?w st)"
      using "1.prems" w by (rule reach.completion)
    have l: "length (workers (resume items m ?w st)) = n"
      using inv_count_resume[OF _ w, where items = items and m = m] reach_count[OF "1.prems"(1)] "1.prems"(2) by simp
    show ?thesis using "1.IH"[OF refl False r l] False by (simp add: run.simps[of items m sched st])
  qed
qed

lemma spawn_length:
  "length (workers (spawn n items m (initial items s))) = n"
  using inv_count_spawn[OF inv_count_initial[of items s], where n = n and items = items and m = m]
  by (simp add: initial_def)

lemma finalState_Inr:
  "workerCount c = Inr n \<Longrightarrow>
   finalState items c m sched s = run items m sched (spawn n items m (initial items s))"
  by (simp add: finalState_def)

lemma finalState_reach:
  assumes "workerCount c = Inr n"
  shows "reach items m n s (finalState items c m sched s)"
  unfolding finalState_Inr[OF assms]
proof (rule run_reach)
  show "reach items m n s (spawn n items m (initial items s))"
    by (rule reach.starting) simp
  show "length (workers (spawn n items m (initial items s))) = n"
    by (rule spawn_length)
qed

lemma awaited_append: "awaited (ws @ [x]) = awaited ws @ awaitedIndex x"
  by (simp add: awaited_def)

lemma awaited_update:
  "w < length ws \<Longrightarrow>
   mset (awaited (ws[w := x])) + mset (awaitedIndex (ws ! w)) = mset (awaited ws) + mset (awaitedIndex x)"
proof (induction ws arbitrary: w)
  case Nil then show ?case by simp
next
  case (Cons a ws)
  show ?case
  proof (cases w)
    case 0 then show ?thesis by (simp add: awaited_def)
  next
    case (Suc v)
    then have "v < length ws" using Cons.prems by simp
    from Cons.IH[OF this] Suc show ?thesis by (simp add: awaited_def)
  qed
qed

lemma awaited_mem: "i \<in> set (awaited ws) \<longleftrightarrow> (\<exists>p. Awaiting i p \<in> set ws)"
proof (induction ws)
  case Nil then show ?case by (simp add: awaited_def)
next
  case (Cons a ws)
  then show ?case by (cases a) (auto simp: awaited_def)
qed

lemma awaited_none: "awaiting ws = [] \<Longrightarrow> awaited ws = []"
proof -
  assume "awaiting ws = []"
  then have "\<forall>w<length ws. \<not> isAwaiting (ws ! w)"
    by (auto simp: awaiting_def filter_empty_conv)
  then have "\<forall>x\<in>set ws. awaitedIndex x = []"
    by (metis awaitedIndex.simps(2,3) in_set_conv_nth isAwaiting.elims(3))
  then show ?thesis by (simp add: awaited_def)
qed

lemma inv_idx_initial: "inv_idx items (initial items s)"
  by (simp add: inv_idx_def initial_def awaited_def)

lemma inv_idx_spawn_finished:
  assumes "inv_idx items st" "length items \<le> nextIndex st"
  shows "inv_idx items (st\<lparr>nextIndex := nextIndex st + 1, workers := workers st @ [Returned]\<rparr>)"
  using assms unfolding inv_idx_def by (simp add: awaited_append min_def)

lemma inv_idx_spawn_claimed:
  assumes "inv_idx items st" "nextIndex st < length items"
  shows "inv_idx items (st\<lparr>nextIndex := nextIndex st + 1, calls := calls st @ [nextIndex st],
        shared := s', workers := workers st @ [Awaiting (nextIndex st) p]\<rparr>)"
  using assms unfolding inv_idx_def by (simp add: awaited_append min_def)

lemma inv_idx_spawn: "inv_idx items st \<Longrightarrow> inv_idx items (spawn n items m st)"
proof (induction n arbitrary: st)
  case 0 then show ?case by simp
next
  case (Suc n)
  show ?case
  proof (cases rule: workerLoop_cases[of items st m])
    case finished
    from Suc.IH[OF inv_idx_spawn_finished[OF Suc.prems finished(1)]] finished show ?thesis by simp
  next
    case (claimed p s')
    from Suc.IH[OF inv_idx_spawn_claimed[OF Suc.prems claimed(1)]] claimed show ?thesis by simp
  qed
qed

lemma inv_idx_awaiting:
  assumes "inv_idx items st" "w < length (workers st)" "workers st ! w = Awaiting i p"
  shows "i < length items" "i < nextIndex st" "i \<notin> set (settled st)"
proof -
  let ?k = "min (nextIndex st) (length items)"
  have M: "mset (awaited (workers st)) + mset (settled st) = mset [0..<?k]"
    using assms(1) by (simp add: inv_idx_def)
  have "Awaiting i p \<in> set (workers st)" using assms(2,3) by (metis nth_mem)
  then have ia: "i \<in># mset (awaited (workers st))" by (auto simp: awaited_mem)
  then have "i \<in># mset [0..<?k]" using M by (metis union_iff)
  then show "i < length items" "i < nextIndex st" by simp_all
  have "count (mset [0..<?k]) i \<le> 1" by (simp add: count_mset_set')
  then have "count (mset (awaited (workers st))) i + count (mset (settled st)) i \<le> 1"
    using M by (metis count_union)
  moreover have "1 \<le> count (mset (awaited (workers st))) i" using ia by (simp add: Suc_le_eq)
  ultimately have "count (mset (settled st)) i = 0" by linarith
  then show "i \<notin> set (settled st)" by (simp add: count_eq_zero_iff)
qed

lemma update_not_Returned:
  "x \<noteq> Returned \<Longrightarrow> Returned \<notin> set ws \<Longrightarrow> Returned \<notin> set (ws[w := x])"
  using set_update_subset_insert[of ws w x] by auto

lemma inv_idx_resume:
  assumes inv: "inv_idx items st" and w: "w \<in> set (awaiting (workers st))"
  shows "inv_idx items (resume items m w st)"
proof -
  from w have wl: "w < length (workers st)" and a: "isAwaiting (workers st ! w)"
    by (simp_all add: awaiting_set)
  then obtain i p where ip: "workers st ! w = Awaiting i p" by (cases "workers st ! w") auto
  note i = inv_idx_awaiting[OF inv wl ip]
  note I = inv[unfolded inv_idx_def]
  have up: "mset (awaited ((workers st)[w := x])) + {#i#} = mset (awaited (workers st)) + mset (awaitedIndex x)" for x
    using awaited_update[OF wl, of x] ip by simp
  from wl ip show ?thesis
  proof (cases rule: resume_cases[where m = m and items = items])
    case (failed e s')
    have "mset (awaited ((workers st)[w := Rejected e])) + mset (settled st @ [i])
          = mset (awaited (workers st)) + mset (settled st)"
      using up[of "Rejected e"] by simp
    moreover have "nextIndex st < length items \<longrightarrow> Returned \<notin> set ((workers st)[w := Rejected e])"
      using I by (simp add: update_not_Returned)
    ultimately show ?thesis using I failed(2) by (simp add: inv_idx_def)
  next
    case (lastOne r s')
    have "mset (awaited ((workers st)[w := Returned])) + mset (settled st @ [i])
          = mset (awaited (workers st)) + mset (settled st)"
      using up[of Returned] by simp
    then show ?thesis using I lastOne(2,3) by (simp add: inv_idx_def min_def)
  next
    case (another r s' q s'')
    have "mset (awaited ((workers st)[w := Awaiting (nextIndex st) q])) + mset (settled st @ [i])
          = mset (awaited (workers st)) + mset (settled st) + {#nextIndex st#}"
      using up[of "Awaiting (nextIndex st) q"] by simp
    moreover have "Returned \<notin> set ((workers st)[w := Awaiting (nextIndex st) q])"
      using I another(2) by (simp add: update_not_Returned)
    ultimately show ?thesis using I another(2,4) by (simp add: inv_idx_def min_def)
  qed
qed

lemma firstFailure_append:
  "firstFailure f items (is @ [i]) =
     (case firstFailure f items is of
        Some e \<Rightarrow> Some e
      | None \<Rightarrow> (case f (items ! i) i of Inl e \<Rightarrow> Some e | Inr r \<Rightarrow> None))"
  by (induction "is") (auto split: sum.splits option.splits)

lemma inv_out_initial: "inv_out items m f (initial items s)"
  by (simp add: inv_out_def initial_def)

lemma inv_out_spawn: "inv_out items m f st \<Longrightarrow> inv_out items m f (spawn n items m st)"
proof (induction n arbitrary: st)
  case 0 then show ?case by simp
next
  case (Suc n)
  show ?case
  proof (cases rule: workerLoop_cases[of items st m])
    case finished
    have "inv_out items m f (st\<lparr>nextIndex := nextIndex st + 1, workers := workers st @ [Returned]\<rparr>)"
      using Suc.prems by (auto simp: inv_out_def)
    from Suc.IH[OF this] finished show ?thesis by simp
  next
    case (claimed p s')
    have "p = fst (call m (items ! nextIndex st) (nextIndex st) (shared st))"
      using claimed(2) by simp
    then have "inv_out items m f (st\<lparr>nextIndex := nextIndex st + 1, calls := calls st @ [nextIndex st],
        shared := s', workers := workers st @ [Awaiting (nextIndex st) p]\<rparr>)"
      using Suc.prems by (auto simp: inv_out_def)
    from Suc.IH[OF this] claimed show ?thesis by simp
  qed
qed

lemma update_subset: "y \<in> set (ws[w := x]) \<Longrightarrow> y = x \<or> y \<in> set ws"
  using set_update_subset_insert[of ws w x] by auto

lemma inv_out_resume:
  assumes out: "outcome m f" and idx: "inv_idx items st" and inv: "inv_out items m f st"
    and w: "w \<in> set (awaiting (workers st))"
  shows "inv_out items m f (resume items m w st)"
proof -
  from w have wl: "w < length (workers st)" and a: "isAwaiting (workers st ! w)"
    by (simp_all add: awaiting_set)
  then obtain i p where ip: "workers st ! w = Awaiting i p" by (cases "workers st ! w") auto
  note i = inv_idx_awaiting[OF idx wl ip]
  have len: "length (results st) = length items" using idx by (simp add: inv_idx_def)
  note I = inv[unfolded inv_out_def]
  have "Awaiting i p \<in> set (workers st)" using wl ip by (metis nth_mem)
  then obtain s0 where p: "p = fst (call m (items ! i) i s0)" using I by blast
  have fo: "fst (settle m p s1) = f (items ! i) i" for s1
    using out p by (simp add: outcome_def)
  from wl ip show ?thesis
  proof (cases rule: resume_cases[where m = m and items = items])
    case (failed e s')
    have fe: "f (items ! i) i = Inl e" using fo[of "shared st"] failed(1) by simp
    let ?st' = "resume items m w st"
    have 1: "\<forall>j q. Awaiting j q \<in> set (workers ?st') \<longrightarrow> (\<exists>s. q = fst (call m (items ! j) j s))"
      using I failed(2) by (auto dest: update_subset)
    have 2: "\<forall>j\<in>set (settled ?st'). \<forall>r. f (items ! j) j = Inr r \<longrightarrow> results ?st' ! j = Some r"
      using I failed(2) fe by auto
    have 3: "firstFailure f items (settled ?st') = rejection ?st'"
      using I failed(2) fe by (simp add: firstFailure_append split: option.splits)
    have 4: "rejection ?st' \<noteq> None" using failed(2) by (simp split: option.splits)
    show ?thesis unfolding inv_out_def using 1 2 3 4 by blast
  next
    case (lastOne r s')
    have fe: "f (items ! i) i = Inr r" using fo[of "shared st"] lastOne(1) by simp
    let ?st' = "resume items m w st"
    have 1: "\<forall>j q. Awaiting j q \<in> set (workers ?st') \<longrightarrow> (\<exists>s. q = fst (call m (items ! j) j s))"
      using I lastOne(3) by (auto dest: update_subset)
    have 2: "\<forall>j\<in>set (settled ?st'). \<forall>r. f (items ! j) j = Inr r \<longrightarrow> results ?st' ! j = Some r"
      using I lastOne(3) fe i len by (auto simp: nth_list_update)
    have 3: "firstFailure f items (settled ?st') = rejection ?st'"
      using I lastOne(3) fe by (simp add: firstFailure_append split: option.splits)
    have 4: "\<forall>e. Rejected e \<in> set (workers ?st') \<longrightarrow> rejection ?st' \<noteq> None"
      using I lastOne(3) by (auto dest: update_subset)
    show ?thesis unfolding inv_out_def using 1 2 3 4 by blast
  next
    case (another r s' q s'')
    have fe: "f (items ! i) i = Inr r" using fo[of "shared st"] another(1) by simp
    have q: "q = fst (call m (items ! nextIndex st) (nextIndex st) s')" using another(3) by simp
    let ?st' = "resume items m w st"
    have 1: "\<forall>j q. Awaiting j q \<in> set (workers ?st') \<longrightarrow> (\<exists>s. q = fst (call m (items ! j) j s))"
      using I another(4) q by (auto dest!: update_subset)
    have 2: "\<forall>j\<in>set (settled ?st'). \<forall>r. f (items ! j) j = Inr r \<longrightarrow> results ?st' ! j = Some r"
      using I another(4) fe i len by (auto simp: nth_list_update)
    have 3: "firstFailure f items (settled ?st') = rejection ?st'"
      using I another(4) fe by (simp add: firstFailure_append split: option.splits)
    have 4: "\<forall>e. Rejected e \<in> set (workers ?st') \<longrightarrow> rejection ?st' \<noteq> None"
      using I another(4) by (auto dest: update_subset)
    show ?thesis unfolding inv_out_def using 1 2 3 4 by blast
  qed
qed

lemma run_inv:
  "outcome m f \<Longrightarrow> inv_idx items st \<Longrightarrow> inv_out items m f st \<Longrightarrow>
     inv_idx items (run items m sched st) \<and> inv_out items m f (run items m sched st)
     \<and> awaiting (workers (run items m sched st)) = []
     \<and> length (workers (run items m sched st)) = length (workers st)"
proof (induction items m sched st rule: run.induct)
  case (1 items m sched st)
  show ?case
  proof (cases "awaiting (workers st) = []")
    case True
    then show ?thesis using "1.prems" by (simp add: run.simps)
  next
    case False
    let ?w = "pick sched (awaiting (workers st))"
    have w: "?w \<in> set (awaiting (workers st))" using False by (rule pick_in)
    have a: "inv_idx items (resume items m ?w st)" using "1.prems"(2) w by (rule inv_idx_resume)
    have b: "inv_out items m f (resume items m ?w st)"
      using "1.prems" w by (rule inv_out_resume)
    have l: "length (workers (resume items m ?w st)) = length (workers st)"
      using w by (auto simp: resume_def Let_def awaiting_set workerLoop_def split: worker.splits prod.splits sum.splits)
    show ?thesis using "1.IH"[OF refl False "1.prems"(1) a b] False l by (simp add: run.simps[of items m sched st])
  qed
qed

lemma final_inv:
  assumes "outcome m f" and "workerCount c = Inr n"
  shows "inv_idx items (finalState items c m sched s)"
    and "inv_out items m f (finalState items c m sched s)"
    and "awaiting (workers (finalState items c m sched s)) = []"
    and "length (workers (finalState items c m sched s)) = n"
proof -
  let ?st0 = "spawn n items m (initial items s)"
  have a: "inv_idx items ?st0" by (rule inv_idx_spawn[OF inv_idx_initial])
  have b: "inv_out items m f ?st0" by (rule inv_out_spawn[OF inv_out_initial])
  note r = run_inv[OF assms(1) a b, of sched]
  show "inv_idx items (finalState items c m sched s)"
    and "inv_out items m f (finalState items c m sched s)"
    and "awaiting (workers (finalState items c m sched s)) = []"
    and "length (workers (finalState items c m sched s)) = n"
    using r by (simp_all add: finalState_Inr[OF assms(2)] spawn_length)
qed

lemma firstFailure_None:
  "firstFailure f items is = None \<longleftrightarrow> (\<forall>i\<in>set is. \<forall>e. f (items ! i) i \<noteq> Inl e)"
  by (induction "is") (auto split: sum.splits)

lemma mapSequential_Inr:
  "mapSequential f xs k = Inr rs \<Longrightarrow>
     length rs = length xs \<and> (\<forall>i<length xs. f (xs ! i) (k + i) = Inr (rs ! i))"
proof (induction xs arbitrary: k rs)
  case Nil then show ?case by simp
next
  case (Cons x xs)
  then obtain r rs' where r: "f x k = Inr r" and rs': "mapSequential f xs (Suc k) = Inr rs'"
    and rs: "rs = r # rs'"
    by (auto split: sum.splits)
  from Cons.IH[OF rs'] r rs show ?case by (auto simp: nth_Cons split: nat.splits)
qed

lemma mapSequential_Inl:
  "mapSequential f xs k = Inl e \<Longrightarrow> \<exists>i<length xs. f (xs ! i) (k + i) = Inl e"
proof (induction xs arbitrary: k)
  case Nil then show ?case by simp
next
  case (Cons x xs)
  show ?case
  proof (cases "f x k")
    case (Inl e')
    then show ?thesis using Cons.prems by auto
  next
    case (Inr r)
    then have "mapSequential f xs (Suc k) = Inl e" using Cons.prems by (auto split: sum.splits)
    from Cons.IH[OF this] obtain i where "i < length xs" "f (xs ! i) (Suc k + i) = Inl e" by blast
    then have "Suc i < length (x # xs) \<and> f ((x # xs) ! Suc i) (k + Suc i) = Inl e" by simp
    then show ?thesis by blast
  qed
qed

text \<open>When no worker is waiting and none has thrown, every index has been claimed and completed.\<close>

lemma final_complete:
  assumes idx: "inv_idx items st" and out: "inv_out items m f st"
    and aw: "awaiting (workers st) = []" and ne: "workers st \<noteq> []" and rj: "rejection st = None"
  shows "length items \<le> nextIndex st" and "mset (settled st) = mset [0..<length items]"
proof -
  obtain x where x: "x \<in> set (workers st)" using ne by (cases "workers st") auto
  then obtain w where w: "w < length (workers st)" "workers st ! w = x" by (auto simp: in_set_conv_nth)
  have "\<not> isAwaiting x" using aw w by (auto simp: awaiting_def filter_empty_conv)
  moreover have "\<forall>e. x \<noteq> Rejected e" using out rj x by (auto simp: inv_out_def)
  ultimately have "x = Returned" by (cases x) auto
  then show n: "length items \<le> nextIndex st" using idx x by (auto simp: inv_idx_def)
  have "awaited (workers st) = []" using aw by (rule awaited_none)
  then show "mset (settled st) = mset [0..<length items]"
    using idx n by (simp add: inv_idx_def min_def)
qed

lemma final_results:
  assumes idx: "inv_idx items st" and out: "inv_out items m f st"
    and all: "mset (settled st) = mset [0..<length items]"
    and rs: "mapSequential f items 0 = Inr rs"
  shows "results st = map Some rs"
proof (rule nth_equalityI)
  from mapSequential_Inr[OF rs] have l: "length rs = length items"
    and f: "\<forall>i<length items. f (items ! i) i = Inr (rs ! i)" by simp_all
  show "length (results st) = length (map Some rs)" using idx l by (simp add: inv_idx_def)
  fix i assume "i < length (results st)"
  then have i: "i < length items" using idx by (simp add: inv_idx_def)
  then have "i \<in> set (settled st)" using all by (metis atLeast0LessThan lessThan_iff mset_eq_setD set_upt)
  then show "results st ! i = map Some rs ! i" using out f i l by (simp add: inv_out_def)
qed

lemma outcome_pureMapper: "outcome (pureMapper f) f"
  by (simp add: outcome_def pureMapper_def)

lemma run_terminal: "awaiting (workers (run items m sched st)) = []"
proof (induction items m sched st rule: run.induct)
  case (1 items m sched st)
  show ?case
  proof (cases "awaiting (workers st) = []")
    case True then show ?thesis by (simp add: run.simps)
  next
    case False
    with "1.IH"[OF refl False] show ?thesis by (simp add: run.simps[of items m sched st])
  qed
qed

lemma reach_idx: "reach items m n s st \<Longrightarrow> inv_idx items st"
proof (induction rule: reach.induct)
  case (starting j) show ?case by (rule inv_idx_spawn[OF inv_idx_initial])
next
  case (completion st w) then show ?case by (simp add: inv_idx_resume)
qed

lemma inv_idx_bounds:
  assumes "inv_idx items st"
  shows "\<forall>i\<in>set (calls st). i < length items" and "\<forall>i\<in>set (settled st). i < length items"
    and "length (results st) = length items"
proof -
  let ?k = "min (nextIndex st) (length items)"
  have M: "mset (awaited (workers st)) + mset (settled st) = mset [0..<?k]"
    using assms by (simp add: inv_idx_def)
  show "\<forall>i\<in>set (calls st). i < length items" using assms by (simp add: inv_idx_def)
  show "length (results st) = length items" using assms by (simp add: inv_idx_def)
  show "\<forall>i\<in>set (settled st). i < length items"
  proof
    fix i assume "i \<in> set (settled st)"
    then have "i \<in># mset (settled st)" by simp
    then have "i \<in># mset [0..<?k]" using M by (metis union_iff)
    then show "i < length items" by simp
  qed
qed

lemma firstFailure_Some:
  "i \<in> set is \<Longrightarrow> f (items ! i) i = Inl e \<Longrightarrow> firstFailure f items is \<noteq> None"
  by (simp add: firstFailure_None) blast

lemma settled_calls:
  assumes "inv_idx items st" "awaiting (workers st) = []"
  shows "mset (settled st) = mset (calls st)"
  using assms awaited_none[OF assms(2)] by (simp add: inv_idx_def)

subsection \<open>The caller's moment and the final state\<close>

lemma run_rejection:
  "rejection st = Some e \<Longrightarrow> rejection (run items m sched st) = Some e"
proof (induction items m sched st rule: run.induct)
  case (1 items m sched st)
  show ?case
  proof (cases "awaiting (workers st) = []")
    case True then show ?thesis using "1.prems" by (simp add: run.simps)
  next
    case False
    let ?w = "pick sched (awaiting (workers st))"
    have "rejection (resume items m ?w st) = Some e"
      using "1.prems"
      by (auto simp: resume_def Let_def workerLoop_def split: worker.splits prod.splits sum.splits)
    from "1.IH"[OF refl False this] False show ?thesis by (simp add: run.simps[of items m sched st])
  qed
qed

text \<open>
  When the caller is resumed, either every operation has completed and nothing was thrown
  (the call is in its final state), or a rejection has been passed on; then the rest of
  the run is the run of what is left, and it ends with the same rejection.
\<close>

lemma awaitAll_run:
  "(rejection (awaitAll items m sched st) = None
      \<and> awaitAll items m sched st = run items m sched st)
   \<or> (\<exists>e k. rejection (awaitAll items m sched st) = Some e
         \<and> rejection (run items m sched st) = Some e
         \<and> run items m sched st = run items m (drop k sched) (awaitAll items m sched st))"
proof (induction items m sched st rule: awaitAll.induct)
  case (1 items m sched st)
  show ?case
  proof (cases "rejection st")
    case (Some e)
    then have a: "awaitAll items m sched st = st" by (simp add: awaitAll.simps)
    have "rejection (run items m sched st) = Some e" using Some by (rule run_rejection)
    moreover have "run items m sched st = run items m (drop 0 sched) st" by simp
    ultimately show ?thesis using a Some by metis
  next
    case None
    show ?thesis
    proof (cases "awaiting (workers st) = []")
      case True
      then show ?thesis using None by (simp add: awaitAll.simps run.simps)
    next
      case False
      let ?st' = "resume items m (pick sched (awaiting (workers st))) st"
      have a: "awaitAll items m sched st = awaitAll items m (tl sched) ?st'"
        using None False by (simp add: awaitAll.simps[of items m sched st])
      have r: "run items m sched st = run items m (tl sched) ?st'"
        using False by (simp add: run.simps[of items m sched st])
      from "1.IH"[OF refl] None False
      have "(rejection (awaitAll items m (tl sched) ?st') = None
              \<and> awaitAll items m (tl sched) ?st' = run items m (tl sched) ?st')
           \<or> (\<exists>e k. rejection (awaitAll items m (tl sched) ?st') = Some e
               \<and> rejection (run items m (tl sched) ?st') = Some e
               \<and> run items m (tl sched) ?st' = run items m (drop k (tl sched)) (awaitAll items m (tl sched) ?st'))"
        by simp
      then show ?thesis
      proof
        assume "rejection (awaitAll items m (tl sched) ?st') = None
              \<and> awaitAll items m (tl sched) ?st' = run items m (tl sched) ?st'"
        then show ?thesis by (metis a r)
      next
        assume "\<exists>e k. rejection (awaitAll items m (tl sched) ?st') = Some e
               \<and> rejection (run items m (tl sched) ?st') = Some e
               \<and> run items m (tl sched) ?st' = run items m (drop k (tl sched)) (awaitAll items m (tl sched) ?st')"
        then obtain e k where e: "rejection (awaitAll items m (tl sched) ?st') = Some e"
          "rejection (run items m (tl sched) ?st') = Some e"
          "run items m (tl sched) ?st' = run items m (drop k (tl sched)) (awaitAll items m (tl sched) ?st')"
          by blast
        have "drop k (tl sched) = drop (Suc k) sched" by (simp add: drop_Suc)
        then have "run items m sched st = run items m (drop (Suc k) sched) (awaitAll items m sched st)"
          using e(3) a r by simp
        then show ?thesis using e(1,2) a r by metis
      qed
    qed
  qed
qed

lemma awaitAll_rejection:
  "rejection (awaitAll items m sched st) = rejection (run items m sched st)"
  using awaitAll_run[of items m sched st] by auto

lemma awaitAll_results:
  "rejection (run items m sched st) = None \<Longrightarrow> awaitAll items m sched st = run items m sched st"
  using awaitAll_run[of items m sched st] by auto

lemma mapWithConcurrency_finalState:
  assumes "workerCount c = Inr n"
  shows "fst (mapWithConcurrency items c m sched s) =
     (case rejection (finalState items c m sched s) of
        Some e \<Rightarrow> Inl e
      | None \<Rightarrow> Inr (results (finalState items c m sched s)))"
proof -
  let ?st0 = "spawn n items m (initial items s)"
  show ?thesis
  proof (cases "rejection (run items m sched ?st0)")
    case None
    then show ?thesis
      using awaitAll_results[OF None] assms
      by (simp add: mapWithConcurrency_def finalState_def Let_def)
  next
    case (Some e)
    then show ?thesis
      using awaitAll_rejection[of items m sched ?st0] assms
      by (simp add: mapWithConcurrency_def finalState_def Let_def)
  qed
qed

lemma mapWithConcurrency_no_rejection:
  assumes "workerCount c = Inr n" and "rejection (finalState items c m sched s) = None"
  shows "snd (mapWithConcurrency items c m sched s) = finalState items c m sched s"
  using assms awaitAll_results[of items m sched "spawn n items m (initial items s)"]
  by (simp add: mapWithConcurrency_def finalState_def Let_def)

lemma mapWithConcurrency_leftover:
  "\<exists>k. finalState items c m sched s
         = run items m (drop k sched) (snd (mapWithConcurrency items c m sched s))"
proof (cases "workerCount c")
  case (Inl e)
  have "\<forall>k. run items m (drop k sched) (initial items s) = initial items s"
    by (simp add: run.simps initial_def awaiting_def)
  then show ?thesis using Inl by (simp add: mapWithConcurrency_def finalState_def)
next
  case (Inr n)
  let ?st0 = "spawn n items m (initial items s)"
  from awaitAll_run[of items m sched ?st0]
  have "\<exists>k. run items m sched ?st0 = run items m (drop k sched) (awaitAll items m sched ?st0)"
  proof
    assume a: "rejection (awaitAll items m sched ?st0) = None
      \<and> awaitAll items m sched ?st0 = run items m sched ?st0"
    have "awaiting (workers (run items m sched ?st0)) = []" by (rule run_terminal)
    then have "run items m (drop 0 sched) (run items m sched ?st0) = run items m sched ?st0"
      by (simp add: run.simps[of items m _ "run items m sched ?st0"])
    then show ?thesis using a by metis
  next
    assume "\<exists>e k. rejection (awaitAll items m sched ?st0) = Some e
         \<and> rejection (run items m sched ?st0) = Some e
         \<and> run items m sched ?st0 = run items m (drop k sched) (awaitAll items m sched ?st0)"
    then show ?thesis by blast
  qed
  then show ?thesis using Inr by (simp add: mapWithConcurrency_def finalState_def Let_def)
qed

subsection \<open>The first failure\<close>

lemma inv_fail_initial: "inv_fail (initial items s)"
  by (simp add: inv_fail_def initial_def)

lemma inv_fail_spawn: "inv_fail st \<Longrightarrow> inv_fail (spawn n items m st)"
proof (induction n arbitrary: st)
  case 0 then show ?case by simp
next
  case (Suc n)
  show ?case
  proof (cases rule: workerLoop_cases[of items st m])
    case finished
    have "inv_fail (st\<lparr>nextIndex := nextIndex st + 1, workers := workers st @ [Returned]\<rparr>)"
      using Suc.prems by (simp add: inv_fail_def)
    from Suc.IH[OF this] finished show ?thesis by simp
  next
    case (claimed p s')
    have "inv_fail (st\<lparr>nextIndex := nextIndex st + 1, calls := calls st @ [nextIndex st],
        shared := s', workers := workers st @ [Awaiting (nextIndex st) p]\<rparr>)"
      using Suc.prems by (simp add: inv_fail_def)
    from Suc.IH[OF this] claimed show ?thesis by simp
  qed
qed

lemma inv_fail_resume: "inv_fail st \<Longrightarrow> inv_fail (resume items m w st)"
proof (cases "w < length (workers st)")
  case False
  assume "inv_fail st" then show ?thesis using False by (simp add: resume_def)
next
  case True
  assume i: "inv_fail st"
  show ?thesis
  proof (cases "workers st ! w")
    case Returned then show ?thesis using i True by (simp add: resume_def)
  next
    case (Rejected e) then show ?thesis using i True by (simp add: resume_def)
  next
    case (Awaiting j p)
    from True Awaiting show ?thesis
    proof (cases rule: resume_cases[where m = m and items = items])
      case (failed e s')
      then show ?thesis using i by (cases "failures st") (simp_all add: inv_fail_def)
    next
      case (lastOne r s')
      then show ?thesis using i by (simp add: inv_fail_def)
    next
      case (another r s' q s'')
      then show ?thesis using i by (simp add: inv_fail_def)
    qed
  qed
qed

lemma run_fail: "inv_fail st \<Longrightarrow> inv_fail (run items m sched st)"
proof (induction items m sched st rule: run.induct)
  case (1 items m sched st)
  show ?case
  proof (cases "awaiting (workers st) = []")
    case True then show ?thesis using "1.prems" by (simp add: run.simps)
  next
    case False
    have "inv_fail (resume items m (pick sched (awaiting (workers st))) st)"
      using "1.prems" by (rule inv_fail_resume)
    from "1.IH"[OF refl False this] False show ?thesis by (simp add: run.simps[of items m sched st])
  qed
qed

lemma reach_fail: "reach items m n s st \<Longrightarrow> inv_fail st"
proof (induction rule: reach.induct)
  case (starting j) show ?case by (rule inv_fail_spawn[OF inv_fail_initial])
next
  case (completion st w) then show ?case by (simp add: inv_fail_resume)
qed

lemma final_fail: "inv_fail (finalState items c m sched s)"
proof (cases "workerCount c")
  case (Inl e) then show ?thesis by (simp add: finalState_def inv_fail_initial)
next
  case (Inr n) show ?thesis by (rule reach_fail[OF finalState_reach[OF Inr]])
qed

lemma final_idx: "inv_idx items (finalState items c m sched s)"
proof (cases "workerCount c")
  case (Inl e) then show ?thesis by (simp add: finalState_def inv_idx_initial)
next
  case (Inr n) show ?thesis by (rule reach_idx[OF finalState_reach[OF Inr]])
qed

lemma final_terminal: "awaiting (workers (finalState items c m sched s)) = []"
proof (cases "workerCount c")
  case (Inl e) then show ?thesis by (simp add: finalState_def initial_def awaiting_def)
next
  case (Inr n) then show ?thesis by (simp add: finalState_def run_terminal)
qed

lemma final_settled_calls:
  "mset (settled (finalState items c m sched s)) = mset (calls (finalState items c m sched s))"
  using final_idx final_terminal by (rule settled_calls)

lemma run_workers: "length (workers (run items m sched st)) = length (workers st)"
proof (induction items m sched st rule: run.induct)
  case (1 items m sched st)
  show ?case
  proof (cases "awaiting (workers st) = []")
    case True then show ?thesis by (simp add: run.simps)
  next
    case False
    let ?w = "pick sched (awaiting (workers st))"
    have "length (workers (resume items m ?w st)) = length (workers st)"
      by (auto simp: resume_def Let_def workerLoop_def split: worker.splits prod.splits sum.splits)
    with "1.IH"[OF refl False] False show ?thesis by (simp add: run.simps[of items m sched st])
  qed
qed

lemma final_workers:
  "workerCount c = Inr n \<Longrightarrow> length (workers (finalState items c m sched s)) = n"
  by (simp add: finalState_def run_workers spawn_length)

subsection \<open>The results\<close>

lemma inv_res_initial: "inv_res (initial items s)"
  by (simp add: inv_res_def initial_def)

lemma inv_res_spawn: "inv_res st \<Longrightarrow> inv_res (spawn n items m st)"
proof (induction n arbitrary: st)
  case 0 then show ?case by simp
next
  case (Suc n)
  show ?case
  proof (cases rule: workerLoop_cases[of items st m])
    case finished
    have "inv_res (st\<lparr>nextIndex := nextIndex st + 1, workers := workers st @ [Returned]\<rparr>)"
      using Suc.prems by (simp add: inv_res_def)
    from Suc.IH[OF this] finished show ?thesis by simp
  next
    case (claimed p s')
    have "inv_res (st\<lparr>nextIndex := nextIndex st + 1, calls := calls st @ [nextIndex st],
        shared := s', workers := workers st @ [Awaiting (nextIndex st) p]\<rparr>)"
      using Suc.prems by (simp add: inv_res_def)
    from Suc.IH[OF this] claimed show ?thesis by simp
  qed
qed

lemma inv_res_resume:
  assumes idx: "inv_idx items st" and inv: "inv_res st" and w: "w \<in> set (awaiting (workers st))"
  shows "inv_res (resume items m w st)"
proof -
  from w have wl: "w < length (workers st)" and a: "isAwaiting (workers st ! w)"
    by (simp_all add: awaiting_set)
  then obtain i p where ip: "workers st ! w = Awaiting i p" by (cases "workers st ! w") auto
  note i = inv_idx_awaiting[OF idx wl ip]
  have len: "length (results st) = length items" using idx by (simp add: inv_idx_def)
  note I = inv[unfolded inv_res_def]
  have fresh: "(i, r') \<notin> set (fulfilled st)" for r'
    using I i(3) by (metis fst_conv image_eqI subsetD)
  have slots: "\<forall>j r'. j < length (results st) \<longrightarrow>
      (((results st)[i := Some r]) ! j = Some r' \<longleftrightarrow> (j, r') \<in> set (fulfilled st @ [(i, r)]))" for r
  proof (intro allI impI)
    fix j r' assume j: "j < length (results st)"
    show "((results st)[i := Some r]) ! j = Some r' \<longleftrightarrow> (j, r') \<in> set (fulfilled st @ [(i, r)])"
    proof (cases "j = i")
      case True
      then show ?thesis using j fresh[of r'] by auto
    next
      case False
      then show ?thesis using j I by auto
    qed
  qed
  from wl ip show ?thesis
  proof (cases rule: resume_cases[where m = m and items = items])
    case (failed e s')
    then show ?thesis using I by (auto simp: inv_res_def)
  next
    case (lastOne r s')
    have 4: "\<forall>e. Rejected e \<in> set ((workers st)[w := Returned]) \<longrightarrow> failures st \<noteq> []"
      using I by (auto dest: update_subset)
    show ?thesis unfolding inv_res_def using lastOne(3) slots[of r] I 4 by auto
  next
    case (another r s' q s'')
    have 4: "\<forall>e. Rejected e \<in> set ((workers st)[w := Awaiting (nextIndex st) q]) \<longrightarrow> failures st \<noteq> []"
      using I by (auto dest: update_subset)
    show ?thesis unfolding inv_res_def using another(4) slots[of r] I 4 by auto
  qed
qed

lemma reach_res: "reach items m n s st \<Longrightarrow> inv_res st"
proof (induction rule: reach.induct)
  case (starting j) show ?case by (rule inv_res_spawn[OF inv_res_initial])
next
  case (completion st w) then show ?case using reach_idx[OF completion(1)] by (simp add: inv_res_resume)
qed

subsection \<open>The applications\<close>

lemma inv_app_initial: "inv_app items m (initial items s)"
  by (simp add: inv_app_def initial_def)

lemma inv_app_spawn: "inv_app items m st \<Longrightarrow> inv_app items m (spawn n items m st)"
proof (induction n arbitrary: st)
  case 0 then show ?case by simp
next
  case (Suc n)
  show ?case
  proof (cases rule: workerLoop_cases[of items st m])
    case finished
    have "inv_app items m (st\<lparr>nextIndex := nextIndex st + 1, workers := workers st @ [Returned]\<rparr>)"
      using Suc.prems by (auto simp: inv_app_def)
    from Suc.IH[OF this] finished show ?thesis by simp
  next
    case (claimed p s')
    have "p = fst (call m (items ! nextIndex st) (nextIndex st) (shared st))"
      using claimed(2) by simp
    then have "inv_app items m (st\<lparr>nextIndex := nextIndex st + 1, calls := calls st @ [nextIndex st],
        shared := s', workers := workers st @ [Awaiting (nextIndex st) p]\<rparr>)"
      using Suc.prems by (auto simp: inv_app_def)
    from Suc.IH[OF this] claimed show ?thesis by simp
  qed
qed

lemma inv_app_resume:
  assumes inv: "inv_app items m st"
  shows "inv_app items m (resume items m w st)"
proof (cases "w < length (workers st)")
  case False then show ?thesis using inv by (simp add: resume_def)
next
  case True
  show ?thesis
  proof (cases "workers st ! w")
    case Returned then show ?thesis using inv True by (simp add: resume_def)
  next
    case (Rejected e) then show ?thesis using inv True by (simp add: resume_def)
  next
    case (Awaiting i p)
    note I = inv[unfolded inv_app_def]
    have "Awaiting i p \<in> set (workers st)" using True Awaiting by (metis nth_mem)
    then obtain s0 where p: "p = fst (call m (items ! i) i s0)" using I by blast
    from True Awaiting show ?thesis
    proof (cases rule: resume_cases[where m = m and items = items])
      case (failed e s')
      let ?st' = "resume items m w st"
      have 1: "\<forall>j q. Awaiting j q \<in> set (workers ?st') \<longrightarrow> (\<exists>s. q = fst (call m (items ! j) j s))"
        using I failed(2) by (auto dest: update_subset)
      have 2: "\<forall>j r. (j, r) \<in> set (fulfilled ?st') \<longrightarrow>
         (\<exists>s s'. fst (settle m (fst (call m (items ! j) j s)) s') = Inr r)"
        using I failed(2) by simp
      show ?thesis unfolding inv_app_def using 1 2 by blast
    next
      case (lastOne r s')
      let ?st' = "resume items m w st"
      have new: "\<exists>s s'. fst (settle m (fst (call m (items ! i) i s)) s') = Inr r"
        using lastOne(1) p by (metis fst_conv)
      have 1: "\<forall>j q. Awaiting j q \<in> set (workers ?st') \<longrightarrow> (\<exists>s. q = fst (call m (items ! j) j s))"
        using I lastOne(3) by (auto dest: update_subset)
      have 2: "\<forall>j r. (j, r) \<in> set (fulfilled ?st') \<longrightarrow>
         (\<exists>s s'. fst (settle m (fst (call m (items ! j) j s)) s') = Inr r)"
        using I lastOne(3) new by auto
      show ?thesis unfolding inv_app_def using 1 2 by blast
    next
      case (another r s' q s'')
      let ?st' = "resume items m w st"
      have new: "\<exists>s s'. fst (settle m (fst (call m (items ! i) i s)) s') = Inr r"
        using another(1) p by (metis fst_conv)
      have q: "q = fst (call m (items ! nextIndex st) (nextIndex st) s')" using another(3) by simp
      have 1: "\<forall>j q. Awaiting j q \<in> set (workers ?st') \<longrightarrow> (\<exists>s. q = fst (call m (items ! j) j s))"
        using I another(4) q by (auto dest!: update_subset)
      have 2: "\<forall>j r. (j, r) \<in> set (fulfilled ?st') \<longrightarrow>
         (\<exists>s s'. fst (settle m (fst (call m (items ! j) j s)) s') = Inr r)"
        using I another(4) new by auto
      show ?thesis unfolding inv_app_def using 1 2 by blast
    qed
  qed
qed

lemma reach_app: "reach items m n s st \<Longrightarrow> inv_app items m st"
proof (induction rule: reach.induct)
  case (starting j) show ?case by (rule inv_app_spawn[OF inv_app_initial])
next
  case (completion st w) then show ?case by (simp add: inv_app_resume)
qed

lemma final_app: "inv_app items m (finalState items c m sched s)"
proof (cases "workerCount c")
  case (Inl e) then show ?thesis by (simp add: finalState_def inv_app_initial)
next
  case (Inr n) show ?thesis by (rule reach_app[OF finalState_reach[OF Inr]])
qed

text \<open>
  When no worker is waiting and nothing has been thrown, every worker has returned: every
  index has been claimed and its operation has completed.
\<close>

lemma all_returned:
  assumes idx: "inv_idx items st" and res: "inv_res st"
    and aw: "awaiting (workers st) = []" and ne: "workers st \<noteq> []" and nf: "failures st = []"
  shows "length items \<le> nextIndex st" and "mset (settled st) = mset [0..<length items]"
proof -
  obtain x where x: "x \<in> set (workers st)" using ne by (cases "workers st") auto
  then obtain w where w: "w < length (workers st)" "workers st ! w = x" by (auto simp: in_set_conv_nth)
  have "\<not> isAwaiting x" using aw w by (auto simp: awaiting_def filter_empty_conv)
  moreover have "\<forall>e. x \<noteq> Rejected e" using res nf x by (auto simp: inv_res_def)
  ultimately have "x = Returned" by (cases x) auto
  then show n: "length items \<le> nextIndex st" using idx x by (auto simp: inv_idx_def)
  have "awaited (workers st) = []" using aw by (rule awaited_none)
  then show "mset (settled st) = mset [0..<length items]"
    using idx n by (simp add: inv_idx_def min_def)
qed

lemma no_failure:
  assumes wc: "workerCount c = Inr n" and n: "1 \<le> n"
    and nf: "failures (finalState items c m sched s) = []"
  shows "calls (finalState items c m sched s) = [0..<length items]"
    and "mset (settled (finalState items c m sched s)) = mset [0..<length items]"
    and "map fst (fulfilled (finalState items c m sched s)) = settled (finalState items c m sched s)"
    and "\<exists>rs. fst (mapWithConcurrency items c m sched s) = Inr (map Some rs)
            \<and> length rs = length items
            \<and> (\<forall>i<length items. (i, rs ! i) \<in> set (fulfilled (finalState items c m sched s)))"
    and "snd (mapWithConcurrency items c m sched s) = finalState items c m sched s"
    and "rejection (finalState items c m sched s) = None"
proof -
  let ?fs = "finalState items c m sched s"
  note r = finalState_reach[OF wc, of items m s sched]
  have idx: "inv_idx items ?fs" by (rule reach_idx[OF r])
  have res: "inv_res ?fs" by (rule reach_res[OF r])
  have aw: "awaiting (workers ?fs) = []" by (rule final_terminal)
  have ne: "workers ?fs \<noteq> []" using final_workers[OF wc, of items m sched s] n by auto
  note c = all_returned[OF idx res aw ne nf]
  show rj: "rejection ?fs = None" using final_fail[of items c m sched s] nf by (simp add: inv_fail_def)
  show 2: "mset (settled ?fs) = mset [0..<length items]" by (rule c(2))
  show "calls ?fs = [0..<length items]" using idx c(1) by (simp add: inv_idx_def min_def)
  show 3: "map fst (fulfilled ?fs) = settled ?fs" using res nf by (simp add: inv_res_def)
  show "snd (mapWithConcurrency items c m sched s) = ?fs"
    by (rule mapWithConcurrency_no_rejection[OF wc rj])
  have len: "length (results ?fs) = length items" using idx by (simp add: inv_idx_def)
  have filled: "\<exists>r. results ?fs ! i = Some r \<and> (i, r) \<in> set (fulfilled ?fs)" if "i < length items" for i
  proof -
    have "i \<in> set (settled ?fs)" using 2 that by (metis atLeast0LessThan lessThan_iff mset_eq_setD set_upt)
    then have "i \<in> fst ` set (fulfilled ?fs)" using 3 by (metis set_map)
    then obtain r where "(i, r) \<in> set (fulfilled ?fs)" by auto
    then show ?thesis using res that len by (auto simp: inv_res_def)
  qed
  define rs where "rs = map the (results ?fs)"
  have rs: "results ?fs = map Some rs"
  proof (rule nth_equalityI)
    show "length (results ?fs) = length (map Some rs)" by (simp add: rs_def)
    fix i assume "i < length (results ?fs)"
    then show "results ?fs ! i = map Some rs ! i" using filled[of i] len by (auto simp: rs_def)
  qed
  have "\<forall>i<length items. (i, rs ! i) \<in> set (fulfilled ?fs)"
  proof (intro allI impI)
    fix i assume i: "i < length items"
    from filled[OF i] obtain r where "results ?fs ! i = Some r" "(i, r) \<in> set (fulfilled ?fs)" by blast
    then show "(i, rs ! i) \<in> set (fulfilled ?fs)" using i len by (simp add: rs_def)
  qed
  moreover have "length rs = length items" using len by (simp add: rs_def)
  moreover have "fst (mapWithConcurrency items c m sched s) = Inr (map Some rs)"
    using rs rj by (simp add: mapWithConcurrency_finalState[OF wc])
  ultimately show "\<exists>rs. fst (mapWithConcurrency items c m sched s) = Inr (map Some rs)
            \<and> length rs = length items
            \<and> (\<forall>i<length items. (i, rs ! i) \<in> set (fulfilled (finalState items c m sched s)))"
    by blast
qed

lemma mapSequential_intro:
  "length rs = length xs \<Longrightarrow> \<forall>i<length xs. f (xs ! i) (k + i) = Inr (rs ! i) \<Longrightarrow>
     mapSequential f xs k = Inr rs"
proof (induction xs arbitrary: k rs)
  case Nil then show ?case by simp
next
  case (Cons x xs)
  then obtain r rs' where rs: "rs = r # rs'" by (cases rs) auto
  have 0: "f x k = Inr r" using Cons.prems(2) rs by (metis add.right_neutral length_greater_0_conv list.distinct(1) nth_Cons_0)
  have "\<forall>i<length xs. f (xs ! i) (Suc k + i) = Inr (rs' ! i)"
  proof (intro allI impI)
    fix i assume "i < length xs"
    then have "f ((x # xs) ! Suc i) (k + Suc i) = Inr (rs ! Suc i)" using Cons.prems(2) by (metis Suc_less_eq length_Cons)
    then show "f (xs ! i) (Suc k + i) = Inr (rs' ! i)" using rs by simp
  qed
  moreover have "length rs' = length xs" using Cons.prems(1) rs by simp
  ultimately have "mapSequential f xs (Suc k) = Inr rs'" by (rule Cons.IH[rotated])
  then show ?case using 0 rs by simp
qed

text \<open>
  For a mapper whose outcome is a function of item and index: the results of a call in
  which nothing was thrown are those of the sequential map, and when the sequential map
  succeeds nothing is thrown.
\<close>

lemma no_failure_sequential:
  assumes out: "outcome m f" and wc: "workerCount c = Inr n" and n: "1 \<le> n"
    and nf: "failures (finalState items c m sched s) = []"
    and v: "fst (mapWithConcurrency items c m sched s) = Inr (map Some rs)"
  shows "mapSequential f items 0 = Inr rs"
proof -
  let ?fs = "finalState items c m sched s"
  note fi = final_inv[OF out wc, of items sched s]
  note nfl = no_failure[OF wc n nf]
  have rs: "results ?fs = map Some rs"
    using v nfl(6) by (simp add: mapWithConcurrency_finalState[OF wc])
  have len: "length rs = length items" using fi(1) rs by (simp add: inv_idx_def)
  have ff: "firstFailure f items (settled ?fs) = None" using fi(2) nfl(6) by (simp add: inv_out_def)
  have "\<forall>i<length items. f (items ! i) (0 + i) = Inr (rs ! i)"
  proof (intro allI impI)
    fix i assume i: "i < length items"
    have s: "i \<in> set (settled ?fs)" using nfl(2) i by (metis atLeast0LessThan lessThan_iff mset_eq_setD set_upt)
    then have "\<forall>e. f (items ! i) i \<noteq> Inl e" using ff by (simp add: firstFailure_None)
    then obtain r where r: "f (items ! i) i = Inr r" by (cases "f (items ! i) i") auto
    then have "results ?fs ! i = Some r" using fi(2) s by (simp add: inv_out_def)
    then have "r = rs ! i" using rs i len by simp
    then show "f (items ! i) (0 + i) = Inr (rs ! i)" using r by simp
  qed
  with len show ?thesis by (rule mapSequential_intro)
qed

lemma no_failure_results:
  assumes out: "outcome m f" and rs: "mapSequential f items 0 = Inr rs"
    and wc: "workerCount c = Inr n" and n: "1 \<le> n"
  shows "fst (mapWithConcurrency items c m sched s) = Inr (map Some rs)"
    and "calls (finalState items c m sched s) = [0..<length items]"
    and "mset (settled (finalState items c m sched s)) = mset [0..<length items]"
    and "failures (finalState items c m sched s) = []"
proof -
  let ?fs = "finalState items c m sched s"
  note fi = final_inv[OF out wc, of items sched s]
  have ok: "\<forall>i<length items. f (items ! i) i = Inr (rs ! i)" using mapSequential_Inr[OF rs] by simp
  have bound: "\<forall>i\<in>set (settled ?fs). i < length items"
    by (rule inv_idx_bounds(2)[OF fi(1)])
  have "firstFailure f items (settled ?fs) = None"
    unfolding firstFailure_None using ok bound by auto
  then have rj: "rejection ?fs = None" using fi(2) by (simp add: inv_out_def)
  have ne: "workers ?fs \<noteq> []" using fi(4) n by auto
  note c = final_complete[OF fi(1) fi(2) fi(3) ne rj]
  show "mset (settled ?fs) = mset [0..<length items]" by (rule c(2))
  show "calls ?fs = [0..<length items]" using fi(1) c(1) by (simp add: inv_idx_def min_def)
  show "fst (mapWithConcurrency items c m sched s) = Inr (map Some rs)"
    using final_results[OF fi(1) fi(2) c(2) rs] rj by (simp add: mapWithConcurrency_finalState[OF wc])
  show "failures ?fs = []"
    using final_fail[of items c m sched s] rj by (cases "failures ?fs") (simp_all add: inv_fail_def)
qed

lemma first_failure_outcome:
  assumes out: "outcome m f" and j: "j < length items" and fj: "f (items ! j) j = Inl e0"
    and wc: "workerCount c = Inr n" and n: "1 \<le> n"
  shows "\<exists>e. fst (mapWithConcurrency items c m sched s) = Inl e
           \<and> firstFailure f items (settled (finalState items c m sched s)) = Some e"
proof -
  let ?fs = "finalState items c m sched s"
  note fi = final_inv[OF out wc, of items sched s]
  have "rejection ?fs \<noteq> None"
  proof
    assume rj: "rejection ?fs = None"
    have ne: "workers ?fs \<noteq> []" using fi(4) n by auto
    from final_complete(2)[OF fi(1) fi(2) fi(3) ne rj] j
    have "j \<in> set (settled ?fs)" by (metis atLeast0LessThan lessThan_iff mset_eq_setD set_upt)
    then have "firstFailure f items (settled ?fs) \<noteq> None"
      using fj by (rule firstFailure_Some[of j "settled ?fs" f items e0])
    then show False using fi(2) rj by (simp add: inv_out_def)
  qed
  then obtain e where e: "rejection ?fs = Some e" by auto
  then have "firstFailure f items (settled ?fs) = Some e" using fi(2) by (simp add: inv_out_def)
  then show ?thesis using e by (simp add: mapWithConcurrency_finalState[OF wc])
qed
subsection \<open>Order, totality and failure of a call\<close>

text \<open>
  Claim C1, amended. For every list of items, every bound \<open>K\<close> with \<open>1 \<le> K < 2\<^sup>3\<^sup>2\<close>
  (fractions included), every mapper and every order in which the operations complete
  (every schedule): if no application of the mapper fails in the run, the call returns one
  output per item, and output \<open>i\<close> is the value the application to item \<open>i\<close> was fulfilled
  with (the result of the operation that the call of the mapper with item \<open>i\<close> and index
  \<open>i\<close> has left, in the states in which it was called and completed); the mapper has been
  applied to the items once each, in input order, and every operation has completed once. When the outcome of the mapper is a function of item and
  index alone, that list is the one mapping sequentially gives, and if the sequential map
  succeeds no application fails.
\<close>

theorem mapWithConcurrency_preserves_order:
  assumes "1 \<le> K" and "K < 4294967296"
  shows "(failures (finalState items (Num K) m sched s) = [] \<longrightarrow>
            (\<exists>rs. fst (mapWithConcurrency items (Num K) m sched s) = Inr (map Some rs)
                \<and> length rs = length items
                \<and> (\<forall>i<length items.
                      (i, rs ! i) \<in> set (fulfilled (finalState items (Num K) m sched s))
                    \<and> (\<exists>s1 s2. fst (settle m (fst (call m (items ! i) i s1)) s2) = Inr (rs ! i)))
                \<and> (\<forall>f. outcome m f \<longrightarrow> mapSequential f items 0 = Inr rs))
          \<and> calls (finalState items (Num K) m sched s) = [0..<length items]
          \<and> map fst (fulfilled (finalState items (Num K) m sched s))
              = settled (finalState items (Num K) m sched s)
          \<and> mset (settled (finalState items (Num K) m sched s)) = mset [0..<length items]
          \<and> snd (mapWithConcurrency items (Num K) m sched s) = finalState items (Num K) m sched s)
       \<and> (\<forall>f rs. outcome m f \<and> mapSequential f items 0 = Inr rs \<longrightarrow>
             failures (finalState items (Num K) m sched s) = []
           \<and> fst (mapWithConcurrency items (Num K) m sched s) = Inr (map Some rs))"
proof -
  from workerCount_valid[OF assms] have wc: "workerCount (Num K) = Inr (nat \<lfloor>K\<rfloor>)"
    and n: "1 \<le> nat \<lfloor>K\<rfloor>" by simp_all
  let ?fs = "finalState items (Num K) m sched s"
  have A: "(\<exists>rs. fst (mapWithConcurrency items (Num K) m sched s) = Inr (map Some rs)
                \<and> length rs = length items
                \<and> (\<forall>i<length items.
                      (i, rs ! i) \<in> set (fulfilled ?fs)
                    \<and> (\<exists>s1 s2. fst (settle m (fst (call m (items ! i) i s1)) s2) = Inr (rs ! i)))
                \<and> (\<forall>f. outcome m f \<longrightarrow> mapSequential f items 0 = Inr rs))
          \<and> calls ?fs = [0..<length items]
          \<and> map fst (fulfilled ?fs) = settled ?fs
          \<and> mset (settled ?fs) = mset [0..<length items]
          \<and> snd (mapWithConcurrency items (Num K) m sched s) = ?fs"
    if nf: "failures ?fs = []"
  proof -
    note l = no_failure[OF wc n nf]
    from l(4) obtain rs where rs: "fst (mapWithConcurrency items (Num K) m sched s) = Inr (map Some rs)"
      "length rs = length items" "\<forall>i<length items. (i, rs ! i) \<in> set (fulfilled ?fs)" by blast
    have sq: "\<forall>f. outcome m f \<longrightarrow> mapSequential f items 0 = Inr rs"
      using no_failure_sequential[OF _ wc n nf rs(1)] by blast
    have ap: "\<forall>i<length items.
                (i, rs ! i) \<in> set (fulfilled ?fs)
              \<and> (\<exists>s1 s2. fst (settle m (fst (call m (items ! i) i s1)) s2) = Inr (rs ! i))"
      using rs(3) final_app[of items m "Num K" sched s] unfolding inv_app_def by blast
    show ?thesis using rs(1,2) ap sq l(1,2,3,5) by blast
  qed
  have B: "failures ?fs = [] \<and> fst (mapWithConcurrency items (Num K) m sched s) = Inr (map Some rs)"
    if "outcome m f \<and> mapSequential f items 0 = Inr rs" for f rs
    using that no_failure_results(1,4)[OF _ _ wc n, of m f items rs sched s] by blast
  show ?thesis using A B by blast
qed


text \<open>
  Claim C2. For every mapper, every concurrency and every order of completion: if an
  application of the mapper fails, the whole call fails, and the caller gets the value
  thrown by the first failure in order of completion and nothing else. No operation is
  cancelled: the operations pending at that failure, and those the other workers go on
  to call, all complete (the final state is the run of what the call has left behind when
  its caller is resumed, and in it every call has completed); their results stay in the
  local array and reach nobody. For a mapper whose outcome is a function of item and
  index, and a bound for which the call starts its workers, a failure on any item makes
  the call fail.
\<close>

theorem mapWithConcurrency_first_failure:
  "(failures (finalState items c m sched s) \<noteq> [] \<longrightarrow>
      fst (mapWithConcurrency items c m sched s) = Inl (hd (failures (finalState items c m sched s))))
   \<and> mset (settled (finalState items c m sched s)) = mset (calls (finalState items c m sched s))
   \<and> (\<exists>k. finalState items c m sched s
            = run items m (drop k sched) (snd (mapWithConcurrency items c m sched s)))
   \<and> (outcome m f \<and> j < length items \<and> f (items ! j) j = Inl e0 \<and> K < 4294967296 \<longrightarrow>
        (\<exists>e. fst (mapWithConcurrency items (Num K) m sched s) = Inl e
           \<and> firstFailure f items (settled (finalState items (Num K) m sched s)) = Some e
           \<and> failures (finalState items (Num K) m sched s) \<noteq> []
           \<and> hd (failures (finalState items (Num K) m sched s)) = e))"
proof (intro conjI impI)
  assume nf: "failures (finalState items c m sched s) \<noteq> []"
  obtain n where wc: "workerCount c = Inr n"
    using nf by (cases "workerCount c") (auto simp: finalState_def initial_def)
  show "fst (mapWithConcurrency items c m sched s) = Inl (hd (failures (finalState items c m sched s)))"
    using final_fail[of items c m sched s] nf
    by (cases "failures (finalState items c m sched s)")
       (simp_all add: inv_fail_def mapWithConcurrency_finalState[OF wc])
next
  show "mset (settled (finalState items c m sched s)) = mset (calls (finalState items c m sched s))"
    by (rule final_settled_calls)
next
  show "\<exists>k. finalState items c m sched s
            = run items m (drop k sched) (snd (mapWithConcurrency items c m sched s))"
    by (rule mapWithConcurrency_leftover)
next
  assume a: "outcome m f \<and> j < length items \<and> f (items ! j) j = Inl e0 \<and> K < 4294967296"
  let ?fs = "finalState items (Num K) m sched s"
  obtain n where wc: "workerCount (Num K) = Inr n"
    using a by (cases "workerCount (Num K)") (auto simp: workerCount_Num split: if_splits)
  from a first_failure_outcome[of m f j items e0 "Num K" n sched s, OF _ _ _ wc workerCount_Inr(1)[OF wc]]
  obtain e where
    e: "fst (mapWithConcurrency items (Num K) m sched s) = Inl e"
       "firstFailure f items (settled ?fs) = Some e" by blast
  have r: "rejection ?fs = Some e"
    using e(1) by (simp add: mapWithConcurrency_finalState[OF wc] split: option.splits)
  have "failures ?fs \<noteq> [] \<and> hd (failures ?fs) = e"
    using final_fail[of items "Num K" m sched s] r
    by (cases "failures ?fs") (simp_all add: inv_fail_def)
  then show "\<exists>e. fst (mapWithConcurrency items (Num K) m sched s) = Inl e
           \<and> firstFailure f items (settled ?fs) = Some e
           \<and> failures ?fs \<noteq> [] \<and> hd (failures ?fs) = e"
    using e by blast
qed

subsection \<open>Examples\<close>

lemma ex_order:
  "fst (mapWithConcurrency [1, 2, 3::nat] (Num 2) (pureMapper (\<lambda>x i. Inr (x * 10 + i) :: thrown + nat))
      [1, 0, 1] ()) = Inr [Some 10, Some 21, Some 32]"
  by code_simp

theorem mapWithConcurrency_preserves_order_witness:
  "failures (finalState [1, 2, 3::nat] (Num 2) (pureMapper (\<lambda>x i. Inr (x * 10 + i) :: thrown + nat))
      [1, 0, 1] ()) = []
   \<and> fst (mapWithConcurrency [1, 2, 3::nat] (Num 2) (pureMapper (\<lambda>x i. Inr (x * 10 + i) :: thrown + nat))
      [1, 0, 1] ()) = Inr [Some 10, Some 21, Some 32]"
proof -
  let ?f = "\<lambda>x i. Inr (x * 10 + i) :: thrown + nat"
  let ?m = "pureMapper ?f :: (nat, thrown + nat, nat, unit) mapper"
  have K: "1 \<le> (2::real)" "(2::real) < 4294967296" by simp_all
  note t = mapWithConcurrency_preserves_order [OF K, of "[1, 2, 3]" ?m "[1, 0, 1]" "()"]
  have o: "outcome ?m ?f \<and> mapSequential ?f [1, 2, 3] 0 = Inr [10, 21, 32]"
    by (simp add: outcome_pureMapper)
  from t [THEN conjunct2, rule_format, OF o] show ?thesis by simp
qed

text \<open>
  The claim as stated fails in two ways. With a bound of \<open>2\<^sup>3\<^sup>2\<close> the call throws and
  returns no list, though mapping sequentially succeeds. And a mapper whose operations
  read a state that their completions change yields, under the bound 2, a list that
  differs from the list of the sequential run (the bound 1), though no application fails:
  here the operation takes the value of a counter when it is called, and its completion
  advances the counter. The callback of the fetch is of this kind, with the credentials in
  place of the counter.
\<close>

theorem mapWithConcurrency_preserves_order_counterexample:
  "fst (mapWithConcurrency [1, 2, 3::nat] (Num 4294967296)
         (pureMapper (\<lambda>x i. Inr (x * 10 + i) :: thrown + nat)) [] ())
     = Inl (Error ''Invalid array length'')
   \<and> mapSequential (\<lambda>x i. Inr (x * 10 + i) :: thrown + nat) [1, 2, 3::nat] 0 = Inr [10, 21, 32]
   \<and> fst (mapWithConcurrency [1, 2, 3::nat] (Num 1)
         \<lparr>call = (\<lambda>x i s. (s, s)), settle = (\<lambda>p s. (Inr p, Suc s))\<rparr> [] (0::nat))
     = Inr [Some 0, Some 1, Some 2]
   \<and> fst (mapWithConcurrency [1, 2, 3::nat] (Num 2)
         \<lparr>call = (\<lambda>x i s. (s, s)), settle = (\<lambda>p s. (Inr p, Suc s))\<rparr> [] (0::nat))
     = Inr [Some 0, Some 0, Some 1]
   \<and> failures (finalState [1, 2, 3::nat] (Num 2)
         \<lparr>call = (\<lambda>x i s. (s, s)), settle = (\<lambda>p s. (Inr p, Suc s))\<rparr> [] (0::nat)) = []"
  by code_simp

lemma ex_failure:
  "fst (mapWithConcurrency [1, 13, 3, 7, 5::nat] (Num 2)
      (pureMapper (\<lambda>x i. if x = 13 then Inl (Error ''unlucky'')
                          else if x = 7 then Inl (Error ''seven'') else Inr (x * 10 + i) :: thrown + nat))
      [1, 0, 1] ()) = Inl (Error ''unlucky'')"
  by code_simp

lemma ex_failure_settled:
  "settled (finalState [1, 13, 3, 7, 5::nat] (Num 2)
      (pureMapper (\<lambda>x i. if x = 13 then Inl (Error ''unlucky'')
                          else if x = 7 then Inl (Error ''seven'') else Inr (x * 10 + i) :: thrown + nat))
      [1, 0, 1] ()) = [1, 0, 2, 3]"
  by code_simp

lemma ex_failure_failures:
  "failures (finalState [1, 13, 3, 7, 5::nat] (Num 2)
      (pureMapper (\<lambda>x i. if x = 13 then Inl (Error ''unlucky'')
                          else if x = 7 then Inl (Error ''seven'') else Inr (x * 10 + i) :: thrown + nat))
      [1, 0, 1] ()) = [Error ''unlucky'', Error ''seven'']"
  by code_simp

text \<open>
  When the caller is resumed with the first failure, one operation has completed and one
  is still pending; in the final state four have completed.
\<close>

lemma ex_failure_leftover:
  "settled (snd (mapWithConcurrency [1, 13, 3, 7, 5::nat] (Num 2)
      (pureMapper (\<lambda>x i. if x = 13 then Inl (Error ''unlucky'')
                          else if x = 7 then Inl (Error ''seven'') else Inr (x * 10 + i) :: thrown + nat))
      [1, 0, 1] ())) = [1]
   \<and> awaited (workers (snd (mapWithConcurrency [1, 13, 3, 7, 5::nat] (Num 2)
      (pureMapper (\<lambda>x i. if x = 13 then Inl (Error ''unlucky'')
                          else if x = 7 then Inl (Error ''seven'') else Inr (x * 10 + i) :: thrown + nat))
      [1, 0, 1] ()))) = [0]"
  by code_simp

theorem mapWithConcurrency_first_failure_witness:
  "fst (mapWithConcurrency [1, 13, 3, 7, 5::nat] (Num 2)
      (pureMapper (\<lambda>x i. if x = 13 then Inl (Error ''unlucky'')
                          else if x = 7 then Inl (Error ''seven'') else Inr (x * 10 + i) :: thrown + nat))
      [1, 0, 1] ()) = Inl (Error ''unlucky'')
   \<and> failures (finalState [1, 13, 3, 7, 5::nat] (Num 2)
      (pureMapper (\<lambda>x i. if x = 13 then Inl (Error ''unlucky'')
                          else if x = 7 then Inl (Error ''seven'') else Inr (x * 10 + i) :: thrown + nat))
      [1, 0, 1] ()) = [Error ''unlucky'', Error ''seven'']
   \<and> settled (finalState [1, 13, 3, 7, 5::nat] (Num 2)
      (pureMapper (\<lambda>x i. if x = 13 then Inl (Error ''unlucky'')
                          else if x = 7 then Inl (Error ''seven'') else Inr (x * 10 + i) :: thrown + nat))
      [1, 0, 1] ()) = [1, 0, 2, 3]"
  using mapWithConcurrency_first_failure [of "[1, 13, 3, 7, 5]" "Num 2"
      "pureMapper (\<lambda>x i. if x = 13 then Inl (Error ''unlucky'')
                          else if x = 7 then Inl (Error ''seven'') else Inr (x * 10 + i))"
      "[1, 0, 1]" "()"
      "\<lambda>x i. if x = 13 then Inl (Error ''unlucky'')
                          else if x = 7 then Inl (Error ''seven'') else Inr (x * 10 + i)"
      1 "Error ''unlucky''" 2]
    ex_failure_settled ex_failure_failures
  by (auto simp add: outcome_pureMapper)

lemma ex_reach:
  "length (workers (spawn 2 [1, 2, 3::nat] (pureMapper (\<lambda>x i. Inr x :: thrown + nat)) (initial [1, 2, 3::nat] ()))) = 2"
  "1 \<in> set (awaiting (workers (spawn 2 [1, 2, 3::nat] (pureMapper (\<lambda>x i. Inr x :: thrown + nat)) (initial [1, 2, 3::nat] ()))))"
  "inflight (resume [1, 2, 3::nat] (pureMapper (\<lambda>x i. Inr x :: thrown + nat)) 1
      (spawn 2 [1, 2, 3::nat] (pureMapper (\<lambda>x i. Inr x :: thrown + nat)) (initial [1, 2, 3::nat] ()))) = 2"
  by code_simp+

theorem mapWithConcurrency_bounded_inflight_witness:
  "workerCount (Num (5 / 2)) = Inr 2
   \<and> real (inflight (resume [1, 2, 3::nat] (pureMapper (\<lambda>x i. Inr x :: thrown + nat)) 1
      (spawn 2 [1, 2, 3::nat] (pureMapper (\<lambda>x i. Inr x :: thrown + nat)) (initial [1, 2, 3::nat] ())))) \<le> 5 / 2"
proof -
  let ?m = "pureMapper (\<lambda>x i. Inr x :: thrown + nat) :: (nat, thrown + nat, nat, unit) mapper"
  have wc: "workerCount (Num (5 / 2)) = Inr 2" by code_simp
  have r0: "reach [1, 2, 3::nat] ?m 2 () (spawn 2 [1, 2, 3] ?m (initial [1, 2, 3::nat] ()))"
    by (rule reach.starting) simp
  have r1: "reach [1, 2, 3::nat] ?m 2 () (resume [1, 2, 3] ?m 1 (spawn 2 [1, 2, 3] ?m (initial [1, 2, 3::nat] ())))"
    using r0 ex_reach(1,2) by (rule reach.completion)
  have "real (inflight (resume [1, 2, 3] ?m 1 (spawn 2 [1, 2, 3] ?m (initial [1, 2, 3::nat] ())))) \<le> 5 / 2"
    using mapWithConcurrency_bounded_inflight [OF wc r1] by simp
  then show ?thesis using wc by simp
qed



subsection \<open>What the mapper keeps of the shared state, the call keeps\<close>

lemma workerLoop_shared:
  assumes "\<forall>x\<in>set items. \<forall>i s. P s \<longrightarrow> P (snd (call m x i s))" and "P (shared st)"
    and "workerLoop items m st = (wk, st')"
  shows "P (shared st')"
proof (cases rule: workerLoop_cases[of items st m])
  case finished
  then show ?thesis using assms by auto
next
  case (claimed p s')
  have "items ! nextIndex st \<in> set items" using claimed(1) by simp
  then have "P (snd (call m (items ! nextIndex st) (nextIndex st) (shared st)))"
    using assms(1,2) by blast
  then show ?thesis using claimed assms(3) by auto
qed

lemma spawn_shared:
  assumes "\<forall>x\<in>set items. \<forall>i s. P s \<longrightarrow> P (snd (call m x i s))"
  shows "P (shared st) \<Longrightarrow> P (shared (spawn n items m st))"
proof (induction n arbitrary: st)
  case 0 then show ?case by simp
next
  case (Suc n)
  obtain wk st' where l: "workerLoop items m st = (wk, st')" by (cases "workerLoop items m st")
  have "P (shared st')" using assms Suc.prems l by (rule workerLoop_shared)
  then have "P (shared (st'\<lparr>workers := workers st' @ [wk]\<rparr>))" by simp
  from Suc.IH[OF this] l show ?case by simp
qed

lemma resume_shared:
  assumes c: "\<forall>x\<in>set items. \<forall>i s. P s \<longrightarrow> P (snd (call m x i s))"
    and s: "\<forall>p s. P s \<longrightarrow> P (snd (settle m p s))" and P: "P (shared st)"
  shows "P (shared (resume items m w st))"
proof (cases "w < length (workers st)")
  case False then show ?thesis using P by (simp add: resume_def)
next
  case True
  show ?thesis
  proof (cases "workers st ! w")
    case Returned then show ?thesis using P True by (simp add: resume_def)
  next
    case (Rejected e) then show ?thesis using P True by (simp add: resume_def)
  next
    case (Awaiting i p)
    from True Awaiting show ?thesis
    proof (cases rule: resume_cases[where m = m and items = items])
      case (failed e s')
      have "P (snd (settle m p (shared st)))" using s P by blast
      then show ?thesis using failed by simp
    next
      case (lastOne r s')
      have "P (snd (settle m p (shared st)))" using s P by blast
      then show ?thesis using lastOne by simp
    next
      case (another r s' q s'')
      have 1: "P s'" using s P another(1) by (metis snd_conv)
      have "items ! nextIndex st \<in> set items" using another(2) by simp
      then have "P (snd (call m (items ! nextIndex st) (nextIndex st) s'))" using c 1 by blast
      then show ?thesis using another by simp
    qed
  qed
qed

lemma run_shared:
  "\<forall>x\<in>set items. \<forall>i s. P s \<longrightarrow> P (snd (call m x i s)) \<Longrightarrow>
   \<forall>p s. P s \<longrightarrow> P (snd (settle m p s)) \<Longrightarrow> P (shared st) \<Longrightarrow>
   P (shared (run items m sched st))"
proof (induction items m sched st rule: run.induct)
  case (1 items m sched st)
  show ?case
  proof (cases "awaiting (workers st) = []")
    case True then show ?thesis using "1.prems" by (simp add: run.simps)
  next
    case False
    have "P (shared (resume items m (pick sched (awaiting (workers st))) st))"
      using "1.prems" by (rule resume_shared)
    from "1.IH"[OF refl False "1.prems"(1,2) this] False show ?thesis
      by (simp add: run.simps[of items m sched st])
  qed
qed

lemma awaitAll_shared:
  "\<forall>x\<in>set items. \<forall>i s. P s \<longrightarrow> P (snd (call m x i s)) \<Longrightarrow>
   \<forall>p s. P s \<longrightarrow> P (snd (settle m p s)) \<Longrightarrow> P (shared st) \<Longrightarrow>
   P (shared (awaitAll items m sched st))"
proof (induction items m sched st rule: awaitAll.induct)
  case (1 items m sched st)
  show ?case
  proof (cases "rejection st \<noteq> None \<or> awaiting (workers st) = []")
    case True then show ?thesis using "1.prems" by (simp add: awaitAll.simps)
  next
    case False
    have "P (shared (resume items m (pick sched (awaiting (workers st))) st))"
      using "1.prems" by (rule resume_shared)
    from "1.IH"[OF refl False "1.prems"(1,2) this] False show ?thesis
      by (simp add: awaitAll.simps[of items m sched st])
  qed
qed

lemma mapWithConcurrency_shared:
  assumes "\<forall>x\<in>set items. \<forall>i s. P s \<longrightarrow> P (snd (call m x i s))"
    and "\<forall>p s. P s \<longrightarrow> P (snd (settle m p s))" and "P s0"
  shows "P (shared (snd (mapWithConcurrency items c m sched s0)))"
proof (cases "workerCount c")
  case (Inl e)
  then show ?thesis using assms(3) by (simp add: mapWithConcurrency_def initial_def)
next
  case (Inr n)
  have "P (shared (spawn n items m (initial items s0)))"
    using assms(1) by (rule spawn_shared) (simp add: initial_def assms(3))
  from awaitAll_shared[OF assms(1,2) this] show ?thesis
    using Inr by (simp add: mapWithConcurrency_def Let_def)
qed

subsection \<open>Calls in which no application can fail\<close>

lemma inv_good_initial: "Q s \<Longrightarrow> inv_good G Q (initial items s)"
  by (simp add: inv_good_def initial_def)

lemma inv_good_spawn:
  assumes c: "\<forall>x\<in>set items. \<forall>i s. Q s \<longrightarrow> G (fst (call m x i s)) \<and> Q (snd (call m x i s))"
  shows "inv_good G Q st \<Longrightarrow> inv_good G Q (spawn n items m st)"
proof (induction n arbitrary: st)
  case 0 then show ?case by simp
next
  case (Suc n)
  show ?case
  proof (cases rule: workerLoop_cases[of items st m])
    case finished
    have "inv_good G Q (st\<lparr>nextIndex := nextIndex st + 1, workers := workers st @ [Returned]\<rparr>)"
      using Suc.prems by (auto simp: inv_good_def)
    from Suc.IH[OF this] finished show ?thesis by simp
  next
    case (claimed p s')
    have "items ! nextIndex st \<in> set items" using claimed(1) by simp
    then have "G p \<and> Q s'" using c Suc.prems claimed(2) unfolding inv_good_def
      by (metis fst_conv snd_conv)
    then have "inv_good G Q (st\<lparr>nextIndex := nextIndex st + 1, calls := calls st @ [nextIndex st],
        shared := s', workers := workers st @ [Awaiting (nextIndex st) p]\<rparr>)"
      using Suc.prems by (auto simp: inv_good_def)
    from Suc.IH[OF this] claimed show ?thesis by simp
  qed
qed

lemma inv_good_resume:
  assumes c: "\<forall>x\<in>set items. \<forall>i s. Q s \<longrightarrow> G (fst (call m x i s)) \<and> Q (snd (call m x i s))"
    and t: "\<forall>p s. G p \<and> Q s \<longrightarrow> (\<exists>r. fst (settle m p s) = Inr r) \<and> Q (snd (settle m p s))"
    and g: "inv_good G Q st"
  shows "inv_good G Q (resume items m w st)"
proof (cases "w < length (workers st)")
  case False then show ?thesis using g by (simp add: resume_def)
next
  case True
  show ?thesis
  proof (cases "workers st ! w")
    case Returned then show ?thesis using g True by (simp add: resume_def)
  next
    case (Rejected e) then show ?thesis using g True by (simp add: resume_def)
  next
    case (Awaiting i p)
    have "Awaiting i p \<in> set (workers st)" using True Awaiting by (metis nth_mem)
    then have Gp: "G p" and Q: "Q (shared st)" using g by (auto simp: inv_good_def)
    from t Gp Q obtain r0 where ok: "fst (settle m p (shared st)) = Inr r0"
      and Q': "Q (snd (settle m p (shared st)))" by blast
    note I = g[unfolded inv_good_def]
    from True Awaiting show ?thesis
    proof (cases rule: resume_cases[where m = m and items = items])
      case (failed e s')
      then show ?thesis using ok by simp
    next
      case (lastOne r s')
      have "\<forall>j q. Awaiting j q \<in> set ((workers st)[w := Returned]) \<longrightarrow> G q"
        using I by (auto dest: update_subset)
      then show ?thesis using lastOne Q' I by (simp add: inv_good_def)
    next
      case (another r s' q s'')
      have s': "Q s'" using Q' another(1) by simp
      have "items ! nextIndex st \<in> set items" using another(2) by simp
      then have "G q \<and> Q s''" using c s' another(3) by (metis fst_conv snd_conv)
      moreover from this have "\<forall>j q'. Awaiting j q' \<in> set ((workers st)[w := Awaiting (nextIndex st) q]) \<longrightarrow> G q'"
        using I by (auto dest!: update_subset)
      ultimately show ?thesis using another I by (simp add: inv_good_def)
    qed
  qed
qed

lemma inv_good_run:
  "\<forall>x\<in>set items. \<forall>i s. Q s \<longrightarrow> G (fst (call m x i s)) \<and> Q (snd (call m x i s)) \<Longrightarrow>
   \<forall>p s. G p \<and> Q s \<longrightarrow> (\<exists>r. fst (settle m p s) = Inr r) \<and> Q (snd (settle m p s)) \<Longrightarrow>
   inv_good G Q st \<Longrightarrow> inv_good G Q (run items m sched st)"
proof (induction items m sched st rule: run.induct)
  case (1 items m sched st)
  show ?case
  proof (cases "awaiting (workers st) = []")
    case True then show ?thesis using "1.prems" by (simp add: run.simps)
  next
    case False
    have "inv_good G Q (resume items m (pick sched (awaiting (workers st))) st)"
      using "1.prems" by (rule inv_good_resume)
    from "1.IH"[OF refl False "1.prems"(1,2) this] False show ?thesis
      by (simp add: run.simps[of items m sched st])
  qed
qed

text \<open>
  When every application of the mapper succeeds in every state that \<open>Q\<close> holds of, and
  the mapper keeps \<open>Q\<close>, a call started in such a state with at least one worker throws
  nothing: it returns a result for every item and leaves nothing behind.
\<close>

lemma mapWithConcurrency_good:
  assumes c: "\<forall>x\<in>set items. \<forall>i s. Q s \<longrightarrow> G (fst (call m x i s)) \<and> Q (snd (call m x i s))"
    and t: "\<forall>p s. G p \<and> Q s \<longrightarrow> (\<exists>r. fst (settle m p s) = Inr r) \<and> Q (snd (settle m p s))"
    and Q: "Q s" and wc: "workerCount concurrency = Inr n" and n: "1 \<le> n"
  shows "\<exists>rs. fst (mapWithConcurrency items concurrency m sched s) = Inr (map Some rs)
            \<and> length rs = length items"
    and "Q (shared (snd (mapWithConcurrency items concurrency m sched s)))"
    and "awaiting (workers (snd (mapWithConcurrency items concurrency m sched s))) = []"
proof -
  let ?fs = "finalState items concurrency m sched s"
  have "inv_good G Q (spawn n items m (initial items s))"
    using c by (rule inv_good_spawn) (simp add: inv_good_def initial_def Q)
  from inv_good_run[OF c t this, of sched] have g: "inv_good G Q ?fs"
    using wc by (simp add: finalState_def)
  then have nf: "failures ?fs = []" by (simp add: inv_good_def)
  note l = no_failure[OF wc n nf]
  show "\<exists>rs. fst (mapWithConcurrency items concurrency m sched s) = Inr (map Some rs)
            \<and> length rs = length items"
    using l(4) by blast
  show "Q (shared (snd (mapWithConcurrency items concurrency m sched s)))"
    using g l(5) by (simp add: inv_good_def)
  show "awaiting (workers (snd (mapWithConcurrency items concurrency m sched s))) = []"
    using l(5) final_terminal[of items concurrency m sched s] by simp
qed
section \<open>Properties of the extraction step\<close>

lemma extract_call_plain:
  "\<not> truthy (html email) \<Longrightarrow>
   call (extractMapper post) (Some email) i requests = (PlainText email, requests)"
  by (simp add: extractMapper_def)

lemma extract_call_html:
  "truthy (html email) \<Longrightarrow>
   call (extractMapper post) (Some email) i requests =
     (Extracting email (extractEmailContent post (extractParams email)), requests @ [extractParams email])"
  by (simp add: extractMapper_def)

lemma extractedEmail_plain:
  "\<not> truthy (html email) \<Longrightarrow> extractedEmail post (Some email) i = Inr (plainTextEmail email)"
  by (simp add: extractedEmail_def extractMapper_def)

lemma extractedEmail_failed:
  "truthy (html email) \<Longrightarrow> extractEmailContent post (extractParams email) = Inl err \<Longrightarrow>
   extractedEmail post (Some email) i = Inr (plainTextEmail email)"
  by (simp add: extractedEmail_def extractMapper_def)

lemma extractedEmail_Some: "\<exists>r. extractedEmail post (Some email) i = Inr r"
  by (cases "extractEmailContent post (extractParams email)")
     (simp_all add: extractedEmail_def extractMapper_def)

lemma outcome_extract: "outcome (extractMapper post) (extractedEmail post)"
  unfolding outcome_def extractedEmail_def extractMapper_def
  by (auto split: option.splits sum.splits pendingExtract.splits)

lemma mapSequential_total:
  "\<forall>x\<in>set xs. \<forall>i. \<exists>r. f x i = Inr r \<Longrightarrow> \<exists>rs. mapSequential f xs k = Inr rs"
proof (induction xs arbitrary: k)
  case Nil then show ?case by simp
next
  case (Cons x xs)
  from Cons.prems have "\<exists>r. f x k = Inr r" by simp
  then obtain r where r: "f x k = Inr r" by blast
  from Cons.prems have "\<forall>x\<in>set xs. \<forall>i. \<exists>r. f x i = Inr r" by simp
  from Cons.IH[OF this] obtain rs where "mapSequential f xs (Suc k) = Inr rs" by blast
  then show ?case using r by simp
qed

lemma workerCount_four: "workerCount (Num 4) = Inr 4"
  by (simp add: workerCount_Num)

lemma extract_requests:
  "\<forall>p\<in>set (snd (extractEmailsContent post (map Some msgs) sched [])).
     \<exists>e\<in>set msgs. truthy (html e) \<and> p = extractParams e"
proof -
  let ?P = "\<lambda>requests. \<forall>p\<in>set requests. \<exists>e\<in>set msgs. truthy (html e) \<and> p = extractParams e"
  have c: "\<forall>x\<in>set (map Some msgs). \<forall>i s. ?P s \<longrightarrow> ?P (snd (call (extractMapper post) x i s))"
    by (auto simp: extractMapper_def)
  have s: "\<forall>p s. ?P s \<longrightarrow> ?P (snd (settle (extractMapper post) p s))"
    by (auto simp: extractMapper_def split: pendingExtract.splits sum.splits)
  have "?P []" by simp
  from mapWithConcurrency_shared[where P = ?P, OF c s this] show ?thesis
    by (simp add: extractEmailsContent_def split_def Let_def)
qed

lemma extractEmailsContent_total:
  "\<exists>rs. fst (extractEmailsContent post (map Some msgs) sched requests) = Inr (map Some rs)
        \<and> length rs = length msgs
        \<and> (\<forall>k<length msgs. extractedEmail post (Some (msgs ! k)) k = Inr (rs ! k))"
proof -
  have "\<forall>x\<in>set (map Some msgs). \<forall>i. \<exists>r. extractedEmail post x i = Inr r"
    using extractedEmail_Some by auto
  then obtain rs where rs: "mapSequential (extractedEmail post) (map Some msgs) 0 = Inr rs"
    using mapSequential_total by blast
  have 1: "fst (extractEmailsContent post (map Some msgs) sched requests) = Inr (map Some rs)"
    using no_failure_results(1)[OF outcome_extract rs workerCount_four, of sched requests]
    by (simp add: extractEmailsContent_def split_def Let_def)
  from mapSequential_Inr[OF rs] have 2: "length rs = length msgs"
    and 3: "\<forall>k<length msgs. extractedEmail post (Some (msgs ! k)) k = Inr (rs ! k)"
    by simp_all
  show ?thesis using 1 2 3 by blast
qed

text \<open>
  Claim C7. For a message with no HTML body the callback makes no request to the
  extraction service (the list of requests is unchanged) and yields the email with the
  one article whose text is the plain-text body; for a message with an HTML body whose
  extraction fails, it yields that same email and does not fail. So the step never fails
  on messages, whatever the order of completion: it returns what the callback yields for
  each message, in order, and every request it made was for a message with an HTML body.
\<close>

theorem extractEmailsContent_fallback:
  "(\<not> truthy (html email) \<longrightarrow>
       call (extractMapper post) (Some email) i requests = (PlainText email, requests)
     \<and> extractedEmail post (Some email) i = Inr (plainTextEmail email))
   \<and> (truthy (html email) \<and> extractEmailContent post (extractParams email) = Inl err \<longrightarrow>
       extractedEmail post (Some email) i = Inr (plainTextEmail email))
   \<and> articles (plainTextEmail email) = [plainTextArticle (msg_text email)]
   \<and> art_text (plainTextArticle (msg_text email)) = msg_text email
   \<and> (\<exists>rs. fst (extractEmailsContent post (map Some msgs) sched requests) = Inr (map Some rs)
          \<and> length rs = length msgs
          \<and> (\<forall>k<length msgs. extractedEmail post (Some (msgs ! k)) k = Inr (rs ! k)))
   \<and> (\<forall>p\<in>set (snd (extractEmailsContent post (map Some msgs) sched [])).
         \<exists>e\<in>set msgs. truthy (html e) \<and> p = extractParams e)"
proof -
  have "\<forall>x\<in>set (map Some msgs). \<forall>i. \<exists>r. extractedEmail post x i = Inr r"
    using extractedEmail_Some by auto
  then obtain rs where rs: "mapSequential (extractedEmail post) (map Some msgs) 0 = Inr rs"
    using mapSequential_total by blast
  have 1: "fst (extractEmailsContent post (map Some msgs) sched requests) = Inr (map Some rs)"
    using no_failure_results(1)[OF outcome_extract rs workerCount_four, of sched requests]
    by (simp add: extractEmailsContent_def split_def Let_def)
  from mapSequential_Inr[OF rs] have 2: "length rs = length msgs"
    and 3: "\<forall>k<length msgs. extractedEmail post (Some (msgs ! k)) k = Inr (rs ! k)"
    by simp_all
  show ?thesis
    using 1 2 3 extract_requests[of post msgs sched]
    by (auto simp: extract_call_plain extractedEmail_plain extractedEmail_failed
        plainTextEmail_def plainTextArticle_def)
qed

theorem extractEmailsContent_fallback_witness:
  "extractedEmail (\<lambda>rq. Inl (AxiosError (Some ''ECONNREFUSED'') None ''refused''))
      (Some \<lparr>msg_id = ''m1'', threadId = None, snippet = None, internalDate = None,
             headers = [''Subject'' \<mapsto> ''News''], msg_text = ''plain body'', html = None\<rparr>) 0
     = Inr (plainTextEmail \<lparr>msg_id = ''m1'', threadId = None, snippet = None, internalDate = None,
             headers = [''Subject'' \<mapsto> ''News''], msg_text = ''plain body'', html = None\<rparr>)
   \<and> extractedEmail (\<lambda>rq. Inl (AxiosError (Some ''ECONNREFUSED'') None ''refused''))
      (Some \<lparr>msg_id = ''m2'', threadId = None, snippet = None, internalDate = None,
             headers = [''Subject'' \<mapsto> ''News''], msg_text = ''plain body'', html = Some ''<p>body</p>''\<rparr>) 0
     = Inr (plainTextEmail \<lparr>msg_id = ''m2'', threadId = None, snippet = None, internalDate = None,
             headers = [''Subject'' \<mapsto> ''News''], msg_text = ''plain body'', html = Some ''<p>body</p>''\<rparr>)"
  using extractEmailsContent_fallback [of "\<lparr>msg_id = ''m1'', threadId = None, snippet = None, internalDate = None,
             headers = [''Subject'' \<mapsto> ''News''], msg_text = ''plain body'', html = None\<rparr>"
          "\<lambda>rq. Inl (AxiosError (Some ''ECONNREFUSED'') None ''refused'')" 0 "[]"
          "Error ''Email extractor service is not running. Start it with: cd extractor && python main.py''"
          "[]" "[]"]
    extractEmailsContent_fallback [of "\<lparr>msg_id = ''m2'', threadId = None, snippet = None, internalDate = None,
             headers = [''Subject'' \<mapsto> ''News''], msg_text = ''plain body'', html = Some ''<p>body</p>''\<rparr>"
          "\<lambda>rq. Inl (AxiosError (Some ''ECONNREFUSED'') None ''refused'')" 0 "[]"
          "Error ''Email extractor service is not running. Start it with: cd extractor && python main.py''"
          "[]" "[]"]
  by (simp add: extractEmailContent_def)
section \<open>Properties of the subscription pipeline and the orchestrator\<close>

subsection \<open>What the fetch and the background leave as it is\<close>

text \<open>
  The fetch and the background write to the database by \<open>emailAccountUpdate\<close> only. So
  what an update of an email account keeps of the database, they keep.
\<close>

lemma emailAccountUpdate_keeps:
  assumes "emailAccountUpdate env a token expires db = Inr db'"
  shows "newsletters db' = newsletters db" and "histories db' = histories db"
    and "dom (emailAccounts db') = dom (emailAccounts db)"
  using assms
  by (auto simp: emailAccountUpdate_def split: option.splits if_splits)

lemma updateIfRefreshed_keeps:
  assumes upd: "\<And>a token expires db db'. emailAccountUpdate env a token expires db = Inr db' \<Longrightarrow> P db \<Longrightarrow> P db'"
    and P: "P (database w)"
  shows "P (database (snd (updateIfRefreshed env cm r w)))"
proof (cases r)
  case None then show ?thesis using P by (simp add: updateIfRefreshed_def)
next
  case (Some x)
  let ?w1 = "w\<lparr>currentCredentials := (currentCredentials w)
                       (manager_ref cm := (getCredentials cm w)
                          \<lparr>accessToken := refreshed_accessToken x, expiresAt := refreshed_expiresAt x\<rparr>)\<rparr>"
  show ?thesis
  proof (cases "encrypt env (refreshed_accessToken x)")
    case (Inl e) then show ?thesis using Some P by (simp add: updateIfRefreshed_def Let_def)
  next
    case (Inr secret)
    show ?thesis
    proof (cases "emailAccountUpdate env (manager_account cm) secret (refreshed_expiresAt x) (database w)")
      case (Inl e) then show ?thesis using Some Inr P by (simp add: updateIfRefreshed_def Let_def)
    next
      case R: (Inr db')
      from upd[OF R P] show ?thesis using Some Inr R by (simp add: updateIfRefreshed_def Let_def)
    qed
  qed
qed

lemma fetchMapper_keeps:
  assumes upd: "\<And>a token expires db db'. emailAccountUpdate env a token expires db = Inr db' \<Longrightarrow> P db \<Longrightarrow> P db'"
  shows "\<forall>x\<in>set ids. \<forall>i (s::World). P (database s) \<longrightarrow> P (database (snd (call (fetchMapper env cm) x i s)))"
    and "\<forall>p (s::World). P (database s) \<longrightarrow> P (database (snd (settle (fetchMapper env cm) p s)))"
proof -
  show "\<forall>x\<in>set ids. \<forall>i (s::World). P (database s) \<longrightarrow> P (database (snd (call (fetchMapper env cm) x i s)))"
    by (simp add: fetchMapper_def)
  show "\<forall>p (s::World). P (database s) \<longrightarrow> P (database (snd (settle (fetchMapper env cm) p s)))"
  proof (intro allI impI)
    fix p and s :: World assume P: "P (database s)"
    show "P (database (snd (settle (fetchMapper env cm) p s)))"
    proof (cases p)
      case (Inl e) then show ?thesis using P by (simp add: fetchMapper_def)
    next
      case (Inr mr)
      obtain message refreshed where mr: "mr = (message, refreshed)" by (cases mr)
      obtain out w' where u: "updateIfRefreshed env cm refreshed s = (out, w')"
        by (cases "updateIfRefreshed env cm refreshed s")
      have "P (database w')"
        using updateIfRefreshed_keeps[of env P s cm refreshed, OF upd P] u by simp
      then show ?thesis using Inr mr u by (cases out) (simp_all add: fetchMapper_def)
    qed
  qed
qed

lemma reshare_fields [simp]:
  "nextIndex (reshare st s) = nextIndex st" "results (reshare st s) = results st"
  "workers (reshare st s) = workers st" "rejection (reshare st s) = rejection st"
  "calls (reshare st s) = calls st" "settled (reshare st s) = settled st"
  "fulfilled (reshare st s) = fulfilled st" "failures (reshare st s) = failures st"
  "shared (reshare st s) = s"
  by (simp_all add: reshare_def)

lemma completeLeftover_keeps:
  assumes upd: "\<And>a token expires db db'. emailAccountUpdate env a token expires db = Inr db' \<Longrightarrow> P db \<Longrightarrow> P db'"
    and P: "P (database w)"
  shows "P (database (completeLeftover env kj w))"
proof -
  let ?l = "background w ! fst kj"
  let ?m = "fetchMapper env (left_manager ?l)"
  have "P (database (shared (resume (left_items ?l) ?m (snd kj) (reshare (left_call ?l) w))))"
    by (rule resume_shared[where P = "\<lambda>s. P (database s)",
          OF fetchMapper_keeps(1)[of env P, OF upd] fetchMapper_keeps(2)[of env P, OF upd]])
       (simp_all add: P)
  then show ?thesis by (simp add: completeLeftover_def Let_def)
qed

lemma completions_keeps:
  assumes upd: "\<And>a token expires db db'. emailAccountUpdate env a token expires db = Inr db' \<Longrightarrow> P db \<Longrightarrow> P db'"
  shows "P (database w) \<Longrightarrow> P (database (completions env picks w))"
proof (induction picks arbitrary: w)
  case Nil then show ?case by simp
next
  case (Cons c cs)
  show ?case
  proof (cases "pendingBackground w = []")
    case True then show ?thesis using Cons.prems by simp
  next
    case False
    let ?w' = "completeLeftover env (pendingBackground w ! (c mod length (pendingBackground w))) w"
    have "P (database ?w')" using upd Cons.prems by (rule completeLeftover_keeps)
    from Cons.IH[OF this] False show ?thesis by (simp add: Let_def)
  qed
qed

lemma meanwhile_keeps:
  assumes upd: "\<And>a token expires db db'. emailAccountUpdate env a token expires db = Inr db' \<Longrightarrow> P db \<Longrightarrow> P db'"
    and P: "P (database w)"
  shows "P (database (meanwhile env w))"
proof (cases "interleaving w")
  case Nil then show ?thesis using P by (simp add: meanwhile_def)
next
  case (Cons picks rest)
  have "P (database (w\<lparr>interleaving := rest\<rparr>))" using P by simp
  from completions_keeps[of env P, OF upd this] Cons show ?thesis by (simp add: meanwhile_def)
qed

lemma foreground_keeps:
  assumes upd: "\<And>a token expires db db'. emailAccountUpdate env a token expires db = Inr db' \<Longrightarrow> P db \<Longrightarrow> P db'"
  shows "\<forall>x\<in>set ids. \<forall>i (s::World). P (database s) \<longrightarrow>
           P (database (snd (call (foreground env (fetchMapper env cm)) x i s)))"
    and "\<forall>p (s::World). P (database s) \<longrightarrow>
           P (database (snd (settle (foreground env (fetchMapper env cm)) p s)))"
proof -
  show "\<forall>x\<in>set ids. \<forall>i (s::World). P (database s) \<longrightarrow>
           P (database (snd (call (foreground env (fetchMapper env cm)) x i s)))"
    using fetchMapper_keeps(1)[of env P ids cm, OF upd] by (simp add: foreground_def)
  show "\<forall>p (s::World). P (database s) \<longrightarrow>
           P (database (snd (settle (foreground env (fetchMapper env cm)) p s)))"
  proof (intro allI impI)
    fix p and s :: World assume "P (database s)"
    then have "P (database (meanwhile env s))" using upd by (rule meanwhile_keeps[rotated])
    then show "P (database (snd (settle (foreground env (fetchMapper env cm)) p s)))"
      using fetchMapper_keeps(2)[of env P cm, OF upd] by (simp add: foreground_def)
  qed
qed

lemma leaveBehind_database [simp]: "database (leaveBehind items cm st) = database (shared st)"
  by (simp add: leaveBehind_def Let_def)

lemma fetchNewsletterEmails_keeps:
  assumes upd: "\<And>a token expires db db'. emailAccountUpdate env a token expires db = Inr db' \<Longrightarrow> P db \<Longrightarrow> P db'"
    and P: "P (database w)"
  shows "P (database (snd (fetchNewsletterEmails env cm n opts start sched w)))"
proof -
  let ?after = "map_option (\<lambda>t. t div 1000)
              (getTime (case lastRun n of None \<Rightarrow> start | Some d \<Rightarrow> d))"
  let ?senders = "case selectedEmails n of None \<Rightarrow> [] | Some xs \<Rightarrow> xs"
  let ?response = "gmailListMessageIds env (getCredentials cm w) ?senders ?after
      (mathMax (Num 1) (mathMin (Num 50) (maxEmailsPerNewsletter opts)))"
  let ?w0 = "meanwhile env w"
  have w0: "P (database ?w0)" using upd P by (rule meanwhile_keeps)
  show ?thesis
  proof (cases ?response)
    case (Inl e)
    then show ?thesis using w0 by (simp add: fetchNewsletterEmails_def Let_def)
  next
    case (Inr listResult)
    obtain out w1 where u: "updateIfRefreshed env cm (list_refreshedCredentials listResult) ?w0 = (out, w1)"
      by (cases "updateIfRefreshed env cm (list_refreshedCredentials listResult) ?w0")
    have w1: "P (database w1)"
      using updateIfRefreshed_keeps[of env P ?w0 cm "list_refreshedCredentials listResult", OF upd w0] u by simp
    show ?thesis
    proof (cases out)
      case (Inl e)
      then show ?thesis using Inr u w1 by (simp add: fetchNewsletterEmails_def Let_def)
    next
      case R: (Inr un)
      have "P (database (shared (snd (mapWithConcurrency (messageIds listResult)
              (mathMax (Num 1) (mathMin (Num 20) (gmailFetchConcurrency opts)))
              (foreground env (fetchMapper env cm)) sched w1))))"
        by (rule mapWithConcurrency_shared[where P = "\<lambda>s. P (database s)",
              OF foreground_keeps(1)[of env P, OF upd] foreground_keeps(2)[of env P, OF upd] w1])
      then show ?thesis using Inr u R
        by (simp add: fetchNewsletterEmails_def Let_def split_def)
    qed
  qed
qed

lemma fetchNewsletterEmails_newsletters:
  "newsletters (database (snd (fetchNewsletterEmails env cm n opts start sched w)))
     = newsletters (database w)"
  by (rule fetchNewsletterEmails_keeps[where P = "\<lambda>db. newsletters db = newsletters (database w)"])
     (simp_all add: emailAccountUpdate_keeps)

lemma meanwhile_newsletters:
  "newsletters (database (meanwhile env w)) = newsletters (database w)"
  by (rule meanwhile_keeps[where P = "\<lambda>db. newsletters db = newsletters (database w)"])
     (simp_all add: emailAccountUpdate_keeps)

lemma fetchNewsletterEmails_accounts:
  "dom (emailAccounts (database (snd (fetchNewsletterEmails env cm n opts start sched w))))
     = dom (emailAccounts (database w))"
  by (rule fetchNewsletterEmails_keeps[where P = "\<lambda>db. dom (emailAccounts db) = dom (emailAccounts (database w))"])
     (simp_all add: emailAccountUpdate_keeps)

lemma meanwhile_accounts:
  "dom (emailAccounts (database (meanwhile env w))) = dom (emailAccounts (database w))"
  by (rule meanwhile_keeps[where P = "\<lambda>db. dom (emailAccounts db) = dom (emailAccounts (database w))"])
     (simp_all add: emailAccountUpdate_keeps)

subsection \<open>The run of one newsletter\<close>

lemma saveNewsletterHistory_keeps:
  "newsletters (database (snd (saveNewsletterHistory env ident emails podcast w)))
     = newsletters (database w)"
  "dom (emailAccounts (database (snd (saveNewsletterHistory env ident emails podcast w))))
     = dom (emailAccounts (database w))"
  using meanwhile_newsletters[of env w] meanwhile_accounts[of env w]
  by (auto simp: saveNewsletterHistory_def newsletterHistoryCreate_def Let_def
      split: option.splits sum.splits prod.splits)

lemma extractNewsletterEmails_snd [simp]:
  "snd (extractNewsletterEmails env emails sched w) = meanwhile env w"
  by (simp add: extractNewsletterEmails_def)

lemma generateNewsletterPodcast_snd [simp]:
  "snd (generateNewsletterPodcast env combinedText w) = meanwhile env w"
  by (simp add: generateNewsletterPodcast_def)

text \<open>
  The steps before the reschedule, one after the other: the state each one leaves, and
  what it yields.
\<close>

lemma beforeReschedule_cases:
  obtains (fetchFailed) e w1 where
      "fetchNewsletterEmails env cm n opts start (fst scheds) w = (Inl e, w1)"
      "beforeReschedule env cm n opts start scheds w = (Inl e, w1)"
  | (extractFailed) emails w1 e where
      "fetchNewsletterEmails env cm n opts start (fst scheds) w = (Inr emails, w1)"
      "fst (extractEmailsContent (extractorPost env) emails (snd scheds) []) = Inl e"
      "beforeReschedule env cm n opts start scheds w = (Inl e, meanwhile env w1)"
  | (synthesisFailed) emails w1 extracted e where
      "fetchNewsletterEmails env cm n opts start (fst scheds) w = (Inr emails, w1)"
      "fst (extractEmailsContent (extractorPost env) emails (snd scheds) []) = Inr extracted"
      "createPodcastFromText env (buildPodcastInput (List.map_filter id extracted)) DEFAULT_PODCAST_OPTIONS = Inl e"
      "beforeReschedule env cm n opts start scheds w = (Inl e, meanwhile env (meanwhile env w1))"
  | (saveFailed) emails w1 extracted podcast e w4 where
      "fetchNewsletterEmails env cm n opts start (fst scheds) w = (Inr emails, w1)"
      "fst (extractEmailsContent (extractorPost env) emails (snd scheds) []) = Inr extracted"
      "createPodcastFromText env (buildPodcastInput (List.map_filter id extracted)) DEFAULT_PODCAST_OPTIONS = Inr podcast"
      "saveNewsletterHistory env (newsletter_id n) emails podcast (meanwhile env (meanwhile env w1)) = (Inl e, w4)"
      "beforeReschedule env cm n opts start scheds w = (Inl e, w4)"
  | (allSaved) emails w1 extracted podcast historyId w4 where
      "fetchNewsletterEmails env cm n opts start (fst scheds) w = (Inr emails, w1)"
      "fst (extractEmailsContent (extractorPost env) emails (snd scheds) []) = Inr extracted"
      "createPodcastFromText env (buildPodcastInput (List.map_filter id extracted)) DEFAULT_PODCAST_OPTIONS = Inr podcast"
      "saveNewsletterHistory env (newsletter_id n) emails podcast (meanwhile env (meanwhile env w1)) = (Inr historyId, w4)"
      "beforeReschedule env cm n opts start scheds w = (Inr (emails, podcast, historyId), w4)"
proof -
  obtain fo w1 where f: "fetchNewsletterEmails env cm n opts start (fst scheds) w = (fo, w1)"
    by (cases "fetchNewsletterEmails env cm n opts start (fst scheds) w")
  show thesis
  proof (cases fo)
    case (Inl e)
    then show thesis using f fetchFailed[of e w1] by (simp add: beforeReschedule_def)
  next
    case (Inr emails)
    show thesis
    proof (cases "fst (extractEmailsContent (extractorPost env) emails (snd scheds) [])")
      case (Inl e)
      then show thesis using f Inr extractFailed[of emails w1 e]
        by (simp add: beforeReschedule_def extractNewsletterEmails_def)
    next
      case X: (Inr extracted)
      show thesis
      proof (cases "createPodcastFromText env (buildPodcastInput (List.map_filter id extracted)) DEFAULT_PODCAST_OPTIONS")
        case (Inl e)
        then show thesis using f Inr X synthesisFailed[of emails w1 extracted e]
          by (simp add: beforeReschedule_def extractNewsletterEmails_def generateNewsletterPodcast_def)
      next
        case G: (Inr podcast)
        obtain so w4 where s: "saveNewsletterHistory env (newsletter_id n) emails podcast
            (meanwhile env (meanwhile env w1)) = (so, w4)"
          by (cases "saveNewsletterHistory env (newsletter_id n) emails podcast (meanwhile env (meanwhile env w1))")
        show thesis
        proof (cases so)
          case (Inl e)
          then show thesis using f Inr X G s saveFailed[of emails w1 extracted podcast e w4]
            by (simp add: beforeReschedule_def extractNewsletterEmails_def generateNewsletterPodcast_def)
        next
          case H: (Inr historyId)
          then show thesis using f Inr X G s allSaved[of emails w1 extracted podcast historyId w4]
            by (simp add: beforeReschedule_def extractNewsletterEmails_def generateNewsletterPodcast_def)
        qed
      qed
    qed
  qed
qed

lemma beforeReschedule_keeps:
  "newsletters (database (snd (beforeReschedule env cm n opts start scheds w)))
     = newsletters (database w)"
  "dom (emailAccounts (database (snd (beforeReschedule env cm n opts start scheds w))))
     = dom (emailAccounts (database w))"
proof -
  have f: "newsletters (database w1) = newsletters (database w)
         \<and> dom (emailAccounts (database w1)) = dom (emailAccounts (database w))"
    if "fetchNewsletterEmails env cm n opts start (fst scheds) w = (out, w1)" for out w1
    using fetchNewsletterEmails_newsletters[of env cm n opts start "fst scheds" w]
      fetchNewsletterEmails_accounts[of env cm n opts start "fst scheds" w] that by simp
  have s: "newsletters (database w4) = newsletters (database w0)
         \<and> dom (emailAccounts (database w4)) = dom (emailAccounts (database w0))"
    if "saveNewsletterHistory env ident emails podcast w0 = (out, w4)" for ident emails podcast out w0 w4
    using saveNewsletterHistory_keeps[of env ident emails podcast w0] that by simp
  have "newsletters (database (snd (beforeReschedule env cm n opts start scheds w)))
         = newsletters (database w)
      \<and> dom (emailAccounts (database (snd (beforeReschedule env cm n opts start scheds w))))
         = dom (emailAccounts (database w))"
  proof (cases rule: beforeReschedule_cases[of env cm n opts start scheds w])
    case (fetchFailed e w1)
    then show ?thesis using f[OF fetchFailed(1)] by simp
  next
    case (extractFailed emails w1 e)
    then show ?thesis using f[OF extractFailed(1)]
      by (simp add: meanwhile_newsletters meanwhile_accounts)
  next
    case (synthesisFailed emails w1 extracted e)
    then show ?thesis using f[OF synthesisFailed(1)]
      by (simp add: meanwhile_newsletters meanwhile_accounts)
  next
    case (saveFailed emails w1 extracted podcast e w4)
    then show ?thesis using f[OF saveFailed(1)] s[OF saveFailed(4)]
      by (simp add: meanwhile_newsletters meanwhile_accounts)
  next
    case (allSaved emails w1 extracted podcast historyId w4)
    then show ?thesis using f[OF allSaved(1)] s[OF allSaved(4)]
      by (simp add: meanwhile_newsletters meanwhile_accounts)
  qed
  then show "newsletters (database (snd (beforeReschedule env cm n opts start scheds w)))
     = newsletters (database w)"
    and "dom (emailAccounts (database (snd (beforeReschedule env cm n opts start scheds w))))
     = dom (emailAccounts (database w))"
    by simp_all
qed

lemma updateNewsletterSchedule_cases:
  obtains (failed) e where
      "updateNewsletterSchedule env ident now cadence w = (Inl e, meanwhile env w)"
  | (updated) n0 where "newsletters (database w) ident = Some n0"
      "updateNewsletterSchedule env ident now cadence w =
         (Inr (addInterval now cadence),
          (meanwhile env w)\<lparr>database := (database (meanwhile env w))\<lparr>newsletters := (newsletters (database w))
              (ident \<mapsto> n0\<lparr>lastRun := Some now, nextRun := addInterval now cadence\<rparr>)\<rparr>\<rparr>)"
proof -
  let ?w0 = "meanwhile env w"
  note N = meanwhile_newsletters[of env w]
  show thesis
  proof (cases "writeFailure env (UpdateNewsletter ident) (database ?w0)")
    case (Some e)
    then show ?thesis using failed[of e]
      by (simp add: updateNewsletterSchedule_def newsletterUpdate_def Let_def)
  next
    case None
    show ?thesis
    proof (cases "newsletters (database w) ident")
      case N0: None
      then show ?thesis using None N failed[of "Error ''Record to update not found.''"]
        by (simp add: updateNewsletterSchedule_def newsletterUpdate_def Let_def)
    next
      case (Some n0)
      then show ?thesis using None N updated[of n0]
        by (simp add: updateNewsletterSchedule_def newsletterUpdate_def Let_def)
    qed
  qed
qed



lemma processNewsletter_other_newsletters:
  "k \<noteq> newsletter_id n \<Longrightarrow>
   newsletters (database (snd (processNewsletter env cm n opts start now scheds w))) k
     = newsletters (database w) k"
proof -
  assume k: "k \<noteq> newsletter_id n"
  obtain out w4 where b: "beforeReschedule env cm n opts start scheds w = (out, w4)"
    by (cases "beforeReschedule env cm n opts start scheds w")
  have w4: "newsletters (database w4) = newsletters (database w)"
    using beforeReschedule_keeps(1)[of env cm n opts start scheds w] b by simp
  show ?thesis
  proof (cases out)
    case (Inl e)
    then show ?thesis using b w4 by (simp add: processNewsletter_def)
  next
    case (Inr x)
    obtain emails podcast hid where x: "x = (emails, podcast, hid)" by (cases x)
    show ?thesis
    proof (cases rule: updateNewsletterSchedule_cases[of env "newsletter_id n" now "interval n" w4])
      case (failed e)
      then show ?thesis using b Inr x w4 by (simp add: processNewsletter_def meanwhile_newsletters)
    next
      case (updated n0)
      then show ?thesis using b Inr x w4 k
        by (auto simp: processNewsletter_def split: sum.splits)
    qed
  qed
qed

lemma processNewsletter_success:
  assumes "result_error (fst (processNewsletter env cm n opts start now scheds w)) = None"
  shows "\<exists>n0. newsletters (database w) (newsletter_id n) = Some n0
      \<and> newsletters (database (snd (processNewsletter env cm n opts start now scheds w)))
          = (newsletters (database w))
              (newsletter_id n \<mapsto> n0\<lparr>lastRun := Some now, nextRun := addInterval now (interval n)\<rparr>)"
proof -
  obtain out w4 where b: "beforeReschedule env cm n opts start scheds w = (out, w4)"
    by (cases "beforeReschedule env cm n opts start scheds w")
  have w4: "newsletters (database w4) = newsletters (database w)"
    using beforeReschedule_keeps(1)[of env cm n opts start scheds w] b by simp
  show ?thesis
  proof (cases out)
    case (Inl e)
    then show ?thesis using b assms by (simp add: processNewsletter_def failed_def)
  next
    case (Inr x)
    obtain emails podcast hid where x: "x = (emails, podcast, hid)" by (cases x)
    show ?thesis
    proof (cases rule: updateNewsletterSchedule_cases[of env "newsletter_id n" now "interval n" w4])
      case (failed e)
      then show ?thesis using b Inr x assms by (simp add: processNewsletter_def failed_def)
    next
      case (updated n0)
      then show ?thesis using b Inr x w4 assms
        by (auto simp: processNewsletter_def failed_def split: sum.splits)
    qed
  qed
qed


text \<open>
  Claim C4. When the run of a newsletter succeeds (its result carries no error), the
  newsletter's record has \<open>lastRun\<close> equal to the instant \<open>now\<close> of the run and \<open>nextRun\<close>
  equal to \<open>addInterval now\<close> of its cadence, and nothing else of the newsletters has
  changed. The steps before the reschedule leave the newsletters of the database as they
  were, and no run changes the record of another newsletter. Neither does anything that
  completes in the background while the run waits: the background writes to email
  accounts only.
\<close>

theorem processNewsletter_reschedules:
  "(result_error (fst (processNewsletter env cm n opts start now scheds w)) = None \<longrightarrow>
      (\<exists>n0. newsletters (database w) (newsletter_id n) = Some n0
         \<and> newsletters (database (snd (processNewsletter env cm n opts start now scheds w)))
             = (newsletters (database w))
                 (newsletter_id n \<mapsto> n0\<lparr>lastRun := Some now, nextRun := addInterval now (interval n)\<rparr>)))
   \<and> newsletters (database (snd (beforeReschedule env cm n opts start scheds w)))
       = newsletters (database w)
   \<and> (\<forall>k. k \<noteq> newsletter_id n \<longrightarrow>
         newsletters (database (snd (processNewsletter env cm n opts start now scheds w))) k
           = newsletters (database w) k)
   \<and> newsletters (database (meanwhile env w)) = newsletters (database w)"
  using processNewsletter_success[of env cm n opts start now scheds w]
    beforeReschedule_keeps(1)[of env cm n opts start scheds w]
    processNewsletter_other_newsletters[of _ n env cm opts start now scheds w]
    meanwhile_newsletters[of env w]
  by blast

subsection \<open>A newsletter whose run cannot fail\<close>

lemma fetch_workers:
  "x \<noteq> NaN \<Longrightarrow> \<exists>n. workerCount (mathMax (Num 1) (mathMin (Num 20) x)) = Inr n \<and> 1 \<le> n"
proof (cases x)
  case (Num r)
  have "1 \<le> max 1 (min 20 r)" "max 1 (min 20 r) < 4294967296" by (simp_all add: max_def min_def)
  from workerCount_valid[OF this] show ?thesis using Num by auto
next
  case Infinity
  have "workerCount (Num 20) = Inr 20" by (simp add: workerCount_Num)
  then show ?thesis using Infinity by simp
next
  case NegInfinity
  have "workerCount (Num 1) = Inr 1" by (simp add: workerCount_Num)
  then show ?thesis using NegInfinity by simp
next
  case NaN
  assume "x \<noteq> NaN" then show ?thesis using NaN by simp
qed

lemma updateIfRefreshed_ok:
  assumes enc: "\<forall>token. \<exists>secret. encrypt env token = Inr secret"
    and wf: "\<forall>write db. writeFailure env write db = None"
    and acc: "manager_account cm \<in> dom (emailAccounts (database w))"
  shows "fst (updateIfRefreshed env cm r w) = Inr ()"
    and "manager_account cm \<in> dom (emailAccounts (database (snd (updateIfRefreshed env cm r w))))"
proof -
  have "dom (emailAccounts (database (snd (updateIfRefreshed env cm r w)))) = dom (emailAccounts (database w))"
    by (rule updateIfRefreshed_keeps[where P = "\<lambda>db. dom (emailAccounts db) = dom (emailAccounts (database w))"])
       (simp_all add: emailAccountUpdate_keeps)
  then show "manager_account cm \<in> dom (emailAccounts (database (snd (updateIfRefreshed env cm r w))))"
    using acc by simp
  show "fst (updateIfRefreshed env cm r w) = Inr ()"
  proof (cases r)
    case None then show ?thesis by (simp add: updateIfRefreshed_def)
  next
    case (Some x)
    from enc obtain secret where s: "encrypt env (refreshed_accessToken x) = Inr secret" by blast
    from acc obtain a where a: "emailAccounts (database w) (manager_account cm) = Some a" by auto
    show ?thesis using Some s a wf
      by (simp add: updateIfRefreshed_def Let_def emailAccountUpdate_def)
  qed
qed

lemma fetch_dependable:
  assumes d: "dependable env opts start now n"
    and acc: "manager_account cm \<in> dom (emailAccounts (database w))"
  shows "\<exists>msgs. fst (fetchNewsletterEmails env cm n opts start sched w) = Inr (map Some msgs)"
proof -
  let ?after = "map_option (\<lambda>t. t div 1000)
              (getTime (case lastRun n of None \<Rightarrow> start | Some d \<Rightarrow> d))"
  let ?senders = "case selectedEmails n of None \<Rightarrow> [] | Some xs \<Rightarrow> xs"
  let ?response = "gmailListMessageIds env (getCredentials cm w) ?senders ?after
      (mathMax (Num 1) (mathMin (Num 50) (maxEmailsPerNewsletter opts)))"
  let ?w0 = "meanwhile env w"
  let ?Q = "\<lambda>s. manager_account cm \<in> dom (emailAccounts (database s))"
  let ?G = "\<lambda>p. \<exists>message refreshed. p = (Inr (message, refreshed) :: fetching)"
  let ?m = "foreground env (fetchMapper env cm)"
  from d have enc: "\<forall>token. \<exists>secret. encrypt env token = Inr secret"
    and wf: "\<forall>write db. writeFailure env write db = None"
    and nn: "gmailFetchConcurrency opts \<noteq> NaN"
    by (simp_all add: dependable_def)
  from d obtain listResult where lr: "?response = Inr listResult"
    and msgs: "\<forall>ident\<in>set (messageIds listResult). \<forall>c'. \<exists>message refreshed.
              gmailGetMessageText env c' ident = Inr (message, refreshed)"
    unfolding dependable_def by blast
  have w0: "?Q ?w0" using acc by (simp add: meanwhile_accounts)
  obtain out w1 where u: "updateIfRefreshed env cm (list_refreshedCredentials listResult) ?w0 = (out, w1)"
    by (cases "updateIfRefreshed env cm (list_refreshedCredentials listResult) ?w0")
  from updateIfRefreshed_ok[OF enc wf w0, of "list_refreshedCredentials listResult"] u
  have out: "out = Inr ()" and w1: "?Q w1" by simp_all
  from fetch_workers[OF nn] obtain k where
    wc: "workerCount (mathMax (Num 1) (mathMin (Num 20) (gmailFetchConcurrency opts))) = Inr k"
    and k: "1 \<le> k" by blast
  have c: "\<forall>x\<in>set (messageIds listResult). \<forall>i s. ?Q s \<longrightarrow> ?G (fst (call ?m x i s)) \<and> ?Q (snd (call ?m x i s))"
    using msgs by (simp add: foreground_def fetchMapper_def)
  have t: "\<forall>p s. ?G p \<and> ?Q s \<longrightarrow> (\<exists>r. fst (settle ?m p s) = Inr r) \<and> ?Q (snd (settle ?m p s))"
  proof (intro allI impI)
    fix p :: fetching and s :: World assume a: "?G p \<and> ?Q s"
    then obtain message refreshed where p: "p = Inr (message, refreshed)" by blast
    have q: "?Q (meanwhile env s)" using a by (simp add: meanwhile_accounts)
    obtain o' s' where u': "updateIfRefreshed env cm refreshed (meanwhile env s) = (o', s')"
      by (cases "updateIfRefreshed env cm refreshed (meanwhile env s)")
    from updateIfRefreshed_ok[OF enc wf q, of refreshed] u'
    have "o' = Inr ()" and "?Q s'" by simp_all
    then show "(\<exists>r. fst (settle ?m p s) = Inr r) \<and> ?Q (snd (settle ?m p s))"
      using p u' by (simp add: foreground_def fetchMapper_def)
  qed
  from mapWithConcurrency_good(1)[where G = ?G and Q = ?Q, OF c t w1 wc k, of "sched"]
  obtain msgs' where "fst (mapWithConcurrency (messageIds listResult)
      (mathMax (Num 1) (mathMin (Num 20) (gmailFetchConcurrency opts))) ?m sched w1) = Inr (map Some msgs')"
    by blast
  then have "fst (fetchNewsletterEmails env cm n opts start sched w) = Inr (map Some msgs')"
    using lr u out by (simp add: fetchNewsletterEmails_def Let_def split_def)
  then show ?thesis by blast
qed

lemma saveNewsletterHistory_ok:
  "\<forall>write db. writeFailure env write db = None \<Longrightarrow>
   \<exists>historyId. fst (saveNewsletterHistory env ident emails podcast w) = Inr historyId"
  by (simp add: saveNewsletterHistory_def newsletterHistoryCreate_def Let_def)

lemma processNewsletter_dependable:
  assumes d: "dependable env opts start now n"
    and acc: "manager_account cm \<in> dom (emailAccounts (database w))"
    and rec: "newsletter_id n \<in> dom (newsletters (database w))"
  shows "result_error (fst (processNewsletter env cm n opts start now scheds w)) = None"
proof -
  from d have wf: "\<forall>write db. writeFailure env write db = None"
    and syn: "\<forall>combinedText. \<exists>podcast.
        createPodcastFromText env combinedText DEFAULT_PODCAST_OPTIONS = Inr podcast"
    and valid: "addInterval now (interval n) \<noteq> InvalidDate"
    by (simp_all add: dependable_def)
  from fetch_dependable[OF d acc, of "fst scheds"] obtain msgs where
    f: "fst (fetchNewsletterEmails env cm n opts start (fst scheds) w) = Inr (map Some msgs)" by blast
  have ex: "\<exists>rs. fst (extractEmailsContent (extractorPost env) (map Some msgs) (snd scheds) []) = Inr rs"
    using extractEmailsContent_total[of "extractorPost env" msgs "snd scheds" "[]"] by blast
  show ?thesis
  proof (cases rule: beforeReschedule_cases[of env cm n opts start scheds w])
    case (fetchFailed e w1)
    then show ?thesis using f by simp
  next
    case (extractFailed emails w1 e)
    then show ?thesis using f ex by auto
  next
    case (synthesisFailed emails w1 extracted e)
    then show ?thesis using syn by (metis Inl_Inr_False)
  next
    case (saveFailed emails w1 extracted podcast e w4)
    then show ?thesis
      using saveNewsletterHistory_ok[OF wf, of "newsletter_id n" emails podcast "meanwhile env (meanwhile env w1)"]
      by auto
  next
    case (allSaved emails w1 extracted podcast historyId w4)
    have "newsletters (database w4) = newsletters (database w)"
      using beforeReschedule_keeps(1)[of env cm n opts start scheds w] allSaved(5) by simp
    then obtain n0 where n0: "newsletters (database w4) (newsletter_id n) = Some n0"
      using rec by auto
    have "newsletters (database (meanwhile env w4)) (newsletter_id n) = Some n0"
      using n0 by (simp add: meanwhile_newsletters)
    then have up: "fst (updateNewsletterSchedule env (newsletter_id n) now (interval n) w4)
        = Inr (addInterval now (interval n))"
      using wf by (simp add: updateNewsletterSchedule_def newsletterUpdate_def Let_def)
    obtain t where t: "addInterval now (interval n) = TimeValue t"
      using valid by (cases "addInterval now (interval n)") auto
    obtain uo w5 where u: "updateNewsletterSchedule env (newsletter_id n) now (interval n) w4 = (uo, w5)"
      by (cases "updateNewsletterSchedule env (newsletter_id n) now (interval n) w4")
    show ?thesis using allSaved(5) u up t
      by (simp add: processNewsletter_def toISOString_def)
  qed
qed

subsection \<open>The loops\<close>





lemma createCredentialsUpdater_fields [simp]:
  "database (snd (createCredentialsUpdater a creds w)) = database w"
  "manager_account (fst (createCredentialsUpdater a creds w)) = a"
  "manager_ref (fst (createCredentialsUpdater a creds w)) = managers w"
  "background (snd (createCredentialsUpdater a creds w)) = background w"
  "interleaving (snd (createCredentialsUpdater a creds w)) = interleaving w"
  by (simp_all add: createCredentialsUpdater_def)











subsection \<open>A sample run\<close>



lemma sample_next:
  "addInterval (TimeValue 1704067200000) BIWEEKLY = TimeValue 1705276800000"
  "addInterval (TimeValue 1704103200000) BIWEEKLY = TimeValue 1705312800000"
  by code_simp+

lemma sample_valid:
  "addInterval (TimeValue 1704067200000) BIWEEKLY \<noteq> InvalidDate"
  "addInterval (TimeValue 1704103200000) BIWEEKLY \<noteq> InvalidDate"
  by (simp_all only: sample_next) simp_all

lemma sample_dependable:
  "dependable (sampleCollaborators ''none'') sampleOptions start (TimeValue 1704067200000) sampleNewsletter"
  "dependable (sampleCollaborators ''m2'') sampleOptions start (TimeValue 1704103200000) (otherNewsletter ident)"
  by (simp_all add: dependable_def sampleCollaborators_def sampleOptions_def sampleNewsletter_def
      otherNewsletter_def sample_valid del: addInterval.simps)

lemma sample_records:
  "manager_account sampleManager \<in> dom (emailAccounts (database (sampleWorld turns)))"
  "newsletter_id sampleNewsletter \<in> dom (newsletters (database (sampleWorld turns)))"
  "newsletter_id (otherNewsletter ''n2'') \<in> dom (newsletters (database (sampleWorld turns)))"
  "account_id (sampleAccount ''acc'') \<in> dom (emailAccounts (database (jobWorld turns)))"
  "account_id (sampleAccount ''acc2'') \<in> dom (emailAccounts (database (jobWorld turns)))"
  "newsletter_id (otherNewsletter ''n2'') \<in> dom (newsletters (database (jobWorld turns)))"
  "newsletter_id (otherNewsletter ''n3'') \<in> dom (newsletters (database (jobWorld turns)))"
  by (simp_all add: sampleWorld_def jobWorld_def sampleManager_def sampleNewsletter_def
      otherNewsletter_def sampleAccount_def)



lemma sample_leftover:
  "pendingBackground (snd (fetchNewsletterEmails (sampleCollaborators ''m2'') sampleManager sampleNewsletter
      sampleOptions (TimeValue 1704067200000) [1, 0] (sampleWorld [[], [], [0, 0]]))) = [(0, 0), (0, 2)]"
  by code_simp

text \<open>
  The fetch of the second newsletter starts in that state. When the two requests left
  behind complete while it waits for its list, the second of them refreshes the
  credentials, and the message of the second newsletter is fetched with the new token;
  when they do not, it is fetched with the old one.
\<close>

lemma sample_meanwhile:
  "(case fst (fetchNewsletterEmails (sampleCollaborators ''m2'') sampleManager (otherNewsletter ''n2'')
        sampleOptions (TimeValue 1704067200000) []
        (snd (fetchNewsletterEmails (sampleCollaborators ''m2'') sampleManager sampleNewsletter
           sampleOptions (TimeValue 1704067200000) [1, 0] (sampleWorld [[], [], [0, 0]])))) of
      Inl e \<Rightarrow> [] | Inr emails \<Rightarrow> map (map_option msg_text) emails)
     = [Some ''m9 fetched with fresh'']"
  "(case fst (fetchNewsletterEmails (sampleCollaborators ''m2'') sampleManager (otherNewsletter ''n2'')
        sampleOptions (TimeValue 1704067200000) []
        (snd (fetchNewsletterEmails (sampleCollaborators ''m2'') sampleManager sampleNewsletter
           sampleOptions (TimeValue 1704067200000) [1, 0] (sampleWorld [])))) of
      Inl e \<Rightarrow> [] | Inr emails \<Rightarrow> map (map_option msg_text) emails)
     = [Some ''m9 fetched with secret'']"
  by code_simp+



theorem processNewsletter_reschedules_witness:
  "result_error (fst (processNewsletter (sampleCollaborators ''none'') sampleManager sampleNewsletter
      sampleOptions (TimeValue 1704067200000) (TimeValue 1704067200000) ([1, 0], [2]) (sampleWorld []))) = None
   \<and> newsletters (database (snd (processNewsletter (sampleCollaborators ''none'') sampleManager sampleNewsletter
      sampleOptions (TimeValue 1704067200000) (TimeValue 1704067200000) ([1, 0], [2]) (sampleWorld [])))) ''n1''
     = Some (sampleNewsletter\<lparr>lastRun := Some (TimeValue 1704067200000),
                              nextRun := TimeValue 1705276800000\<rparr>)"
proof -
  note t = processNewsletter_reschedules [of "sampleCollaborators ''none''" sampleManager sampleNewsletter sampleOptions
      "TimeValue 1704067200000" "TimeValue 1704067200000" "([1, 0], [2])" "sampleWorld []"]
  have ok: "result_error (fst (processNewsletter (sampleCollaborators ''none'') sampleManager sampleNewsletter
      sampleOptions (TimeValue 1704067200000) (TimeValue 1704067200000) ([1, 0], [2]) (sampleWorld []))) = None"
    using sample_dependable(1) sample_records(1,2) by (rule processNewsletter_dependable)
  have n: "newsletter_id sampleNewsletter = ''n1''" "interval sampleNewsletter = BIWEEKLY"
    by (simp_all add: sampleNewsletter_def)
  have w: "newsletters (database (sampleWorld [])) ''n1'' = Some sampleNewsletter"
    by (simp add: sampleWorld_def jobWorld_def)
  from t [THEN conjunct1, rule_format, OF ok] obtain n0 where
    n0: "newsletters (database (sampleWorld [])) (newsletter_id sampleNewsletter) = Some n0"
    and u: "newsletters (database (snd (processNewsletter (sampleCollaborators ''none'') sampleManager sampleNewsletter
      sampleOptions (TimeValue 1704067200000) (TimeValue 1704067200000) ([1, 0], [2]) (sampleWorld []))))
      = (newsletters (database (sampleWorld [])))(newsletter_id sampleNewsletter \<mapsto>
          n0\<lparr>lastRun := Some (TimeValue 1704067200000),
             nextRun := addInterval (TimeValue 1704067200000) (interval sampleNewsletter)\<rparr>)"
    by blast
  have "n0 = sampleNewsletter" using n0 w n by simp
  then show ?thesis using u n ok by (simp only: sample_next) simp
qed

text \<open>
  The callback of the fetch reads the credentials when it is called, and a completion may
  refresh them: under the bound 2 the second message is requested before the first
  response has refreshed the token, under the bound 1 after it.
\<close>

lemma sample_fetch_order:
  "(case fst (mapWithConcurrency [''m3'', ''m1'', ''m4''] (Num 1)
        (fetchMapper (sampleCollaborators ''none'') sampleManager) [] (sampleWorld [])) of
      Inl e \<Rightarrow> [] | Inr emails \<Rightarrow> map (map_option msg_text) emails)
     = [Some ''m3 fetched with secret'', Some ''m1 fetched with fresh'', Some ''m4 fetched with fresh'']"
  "(case fst (mapWithConcurrency [''m3'', ''m1'', ''m4''] (Num 2)
        (fetchMapper (sampleCollaborators ''none'') sampleManager) [] (sampleWorld [])) of
      Inl e \<Rightarrow> [] | Inr emails \<Rightarrow> map (map_option msg_text) emails)
     = [Some ''m3 fetched with secret'', Some ''m1 fetched with secret'', Some ''m4 fetched with fresh'']"
  by code_simp+

text \<open>
  With a fetch concurrency of \<open>NaN\<close> the fetch returns empty slots, on which the
  extraction throws.
\<close>

lemma sample_NaN_concurrency:
  "result_error (fst (processNewsletter (sampleCollaborators ''none'') sampleManager sampleNewsletter
      \<lparr>maxEmailsPerNewsletter = Num 10, gmailFetchConcurrency = NaN\<rparr>
      (TimeValue 1704067200000) (TimeValue 1704103200000) ([], []) (sampleWorld [])))
   = Some ''Cannot read properties of undefined (reading 'html')''"
  by code_simp
end
